theory Spec2Isabelle
  imports Main "HOL-Library.Word"
begin

unbundle bit_operations_syntax

section \<open>Values of the program\<close>

text \<open>
  A \<open>Uint8Array\<close> is a list of 8-bit words. The operands of JavaScript's bitwise operators
  are 32-bit integers: they are 32-bit words here, read with \<open>sint\<close> where the code
  compares or multiplies them as numbers. A string is a list of characters; the case maps
  act on the ASCII letters, which is what the address alphabet and the network prefixes use.
\<close>

type_synonym byte = "8 word"
type_synonym bytes = "8 word list"
type_synonym int32 = "32 word"

text \<open>
  Every \<open>throw new Error(message)\<close> of the source is one constructor, named after the
  error kind of the specification; the message is given beside it. \<open>RangeError\<close> is what
  \<open>Buffer\<close>'s integer writers throw for a value outside their range, \<open>TypeError\<close> what
  reading a field of \<open>undefined\<close> throws, and \<open>Diverges\<close> stands for a loop that never
  exits.
\<close>

datatype error =
    MixedCase                 \<comment> \<open>'Mixed case address'\<close>
  | InvalidFormat             \<comment> \<open>'Invalid address format: ...'\<close>
  | UnknownPrefix             \<comment> \<open>'Invalid address prefix: ...'\<close>
  | InvalidCharacter          \<comment> \<open>'Invalid value: ...' of base32Decode\<close>
  | InvalidValue              \<comment> \<open>'Invalid value: ...' of convertBits and base32Encode\<close>
  | InvalidChecksum           \<comment> \<open>'Invalid checksum: ...'\<close>
  | InvalidPadding            \<comment> \<open>'Input cannot be converted to ... bits without padding, ...'\<close>
  | EmptyPayload              \<comment> \<open>'Address payload is empty'\<close>
  | InvalidKeyLength          \<comment> \<open>'Invalid Schnorr public key length', 'Invalid ECDSA public key length'\<close>
  | InvalidHashLength         \<comment> \<open>'Invalid script hash length'\<close>
  | UnsupportedVersion        \<comment> \<open>'Unsupported address version: ...'\<close>
  | InvalidPrivateKey         \<comment> \<open>'Invalid private key'\<close>
  | NoInputs                  \<comment> \<open>'No inputs available for transaction'\<close>
  | NoOutputs                 \<comment> \<open>'No outputs provided'\<close>
  | NegativeFee               \<comment> \<open>'Fee cannot be negative'\<close>
  | NonPositiveOutputAmount   \<comment> \<open>'Output amount must be positive'\<close>
  | InsufficientBalance       \<comment> \<open>'Insufficient balance'\<close>
  | RangeError
  | TypeError
  | Diverges

subsection \<open>JavaScript's shifts\<close>

text \<open>The shift count of \<open><<\<close>, \<open>>>\<close> and \<open>>>>\<close> is taken modulo 32.\<close>

definition js_shl :: "int32 \<Rightarrow> nat \<Rightarrow> int32" where
  "js_shl x n = push_bit (n mod 32) x"

definition js_sar :: "int32 \<Rightarrow> nat \<Rightarrow> int32" where
  "js_sar x n = signed_drop_bit (n mod 32) x"

definition js_shr :: "int32 \<Rightarrow> nat \<Rightarrow> int32" where
  "js_shr x n = drop_bit (n mod 32) x"

subsection \<open>Strings\<close>

definition lowerChar :: "char \<Rightarrow> char" where
  "lowerChar c =
     (if 65 \<le> (of_char c :: nat) \<and> (of_char c :: nat) \<le> 90
      then char_of (of_char c + (32 :: nat)) else c)"

definition upperChar :: "char \<Rightarrow> char" where
  "upperChar c =
     (if 97 \<le> (of_char c :: nat) \<and> (of_char c :: nat) \<le> 122
      then char_of (of_char c - (32 :: nat)) else c)"

definition toLowerCase :: "string \<Rightarrow> string" where
  "toLowerCase s = map lowerChar s"

definition toUpperCase :: "string \<Rightarrow> string" where
  "toUpperCase s = map upperChar s"

text \<open>\<open>s.split(sep)\<close> for a one-character separator: the empty string gives one empty piece.\<close>

fun split_on :: "char \<Rightarrow> string \<Rightarrow> string list" where
  "split_on sep [] = [[]]"
| "split_on sep (c # cs) =
     (if c = sep then [] # split_on sep cs
      else (case split_on sep cs of
              [] \<Rightarrow> [[c]]
            | p # ps \<Rightarrow> (c # p) # ps))"

section \<open>The address codec (src/lib/address.ts)\<close>

definition CHARSET :: string where
  "CHARSET = ''qpzry9x8gf2tvdw0s3jn54khce6mua7l''"

definition CHARSET_INVERSE_INDEX :: "(char \<times> byte) list" where
  "CHARSET_INVERSE_INDEX =
     [(CHR ''q'', 0), (CHR ''p'', 1), (CHR ''z'', 2), (CHR ''r'', 3),
      (CHR ''y'', 4), (CHR ''9'', 5), (CHR ''x'', 6), (CHR ''8'', 7),
      (CHR ''g'', 8), (CHR ''f'', 9), (CHR ''2'', 10), (CHR ''t'', 11),
      (CHR ''v'', 12), (CHR ''d'', 13), (CHR ''w'', 14), (CHR ''0'', 15),
      (CHR ''s'', 16), (CHR ''3'', 17), (CHR ''j'', 18), (CHR ''n'', 19),
      (CHR ''5'', 20), (CHR ''4'', 21), (CHR ''k'', 22), (CHR ''h'', 23),
      (CHR ''c'', 24), (CHR ''e'', 25), (CHR ''6'', 26), (CHR ''m'', 27),
      (CHR ''u'', 28), (CHR ''a'', 29), (CHR ''7'', 30), (CHR ''l'', 31)]"

definition GENERATOR1 :: "int32 list" where
  "GENERATOR1 = [0x98, 0x79, 0xf3, 0xae, 0x1e]"

definition GENERATOR2 :: "int32 list" where
  "GENERATOR2 = [0xf2bc8e61, 0xb76d99e2, 0x3e5fb3c4, 0x2eabe2a8, 0x4f43e470]"

definition DEFAULT_ALLOWED_PREFIXES :: "string list" where
  "DEFAULT_ALLOWED_PREFIXES = [''kaspa'', ''kaspatest'', ''kaspadev'', ''kaspasim'']"

definition hasSingleCase :: "string \<Rightarrow> bool" where
  "hasSingleCase v \<longleftrightarrow> v = toLowerCase v \<or> v = toUpperCase v"

subsection \<open>convertBits\<close>

text \<open>
  The inner \<open>while (bits >= to)\<close> loop. Each pass writes one element of the result. With
  \<open>to = 0\<close> the source's loop never exits; \<open>convertBits_loop\<close> answers \<open>Diverges\<close>
  before it enters the loop in that case, so the guard \<open>0 < to\<close> here is never the reason
  the loop stops.
\<close>

function convertBits_emit :: "nat \<Rightarrow> int32 \<Rightarrow> int32 \<Rightarrow> nat \<Rightarrow> bytes \<Rightarrow> nat \<times> bytes" where
  "convertBits_emit to msk acc bits out =
     (if 0 < to \<and> to \<le> bits
      then convertBits_emit to msk acc (bits - to)
             (out @ [ucast (js_sar acc (bits - to) AND msk)])
      else (bits, out))"
  by pat_completeness auto
termination
  by (relation "measure (\<lambda>(to, msk, acc, bits, out). bits)") auto

declare convertBits_emit.simps [simp del]

text \<open>The \<open>for\<close> loop over the data; \<open>out\<close> is the list of elements written so far.\<close>

fun convertBits_loop ::
  "nat \<Rightarrow> nat \<Rightarrow> int32 \<Rightarrow> bytes \<Rightarrow> int32 \<Rightarrow> nat \<Rightarrow> bytes \<Rightarrow> error + (int32 \<times> nat \<times> bytes)" where
  "convertBits_loop from to msk [] acc bits out = Inr (acc, bits, out)"
| "convertBits_loop from to msk (v # rest) acc bits out =
     (if js_sar (ucast v) from \<noteq> 0 then Inl InvalidValue
      else if to = 0 then Inl Diverges
      else
        (let acc' = js_shl acc from OR ucast v
         in case convertBits_emit to msk acc' (bits + from) out of
              (bits', out') \<Rightarrow> convertBits_loop from to msk rest acc' bits' out'))"

text \<open>
  The result is a zero-filled \<open>Uint8Array(length)\<close>; a write at an index beyond its end
  is dropped, and an element never written stays 0.
\<close>

definition fit :: "nat \<Rightarrow> bytes \<Rightarrow> bytes" where
  "fit n written = take n (written @ replicate n 0)"

definition convertBits :: "bytes \<Rightarrow> nat \<Rightarrow> nat \<Rightarrow> bool \<Rightarrow> error + bytes" where
  "convertBits data from to strictMode =
     (let len = (if strictMode then (length data * from) div to
                 else (length data * from + to - 1) div to);
          msk = js_shl 1 to - 1
      in case convertBits_loop from to msk data 0 0 [] of
           Inl e \<Rightarrow> Inl e
         | Inr (acc, bits, out) \<Rightarrow>
             if \<not> strictMode then
               (if 0 < bits
                then Inr (fit len (out @ [ucast (js_shl acc (to - bits) AND msk)]))
                else Inr (fit len out))
             else if bits < from \<and> js_shl acc (to - bits) AND msk = 0
             then Inr (fit len out)
             else Inl InvalidPadding)"

subsection \<open>The base-32 alphabet\<close>

fun base32Encode :: "bytes \<Rightarrow> error + string" where
  "base32Encode [] = Inr []"
| "base32Encode (v # rest) =
     (if \<not> unat v < 32 then Inl InvalidValue
      else case base32Encode rest of
             Inl e \<Rightarrow> Inl e
           | Inr s \<Rightarrow> Inr (CHARSET ! unat v # s))"

fun base32Decode :: "string \<Rightarrow> error + bytes" where
  "base32Decode [] = Inr []"
| "base32Decode (ch # rest) =
     (case map_of CHARSET_INVERSE_INDEX ch of
        None \<Rightarrow> Inl InvalidCharacter
      | Some v \<Rightarrow>
          (case base32Decode rest of
             Inl e \<Rightarrow> Inl e
           | Inr d \<Rightarrow> Inr (v # d)))"

definition prefixToArray :: "string \<Rightarrow> bytes" where
  "prefixToArray prefix = map (\<lambda>c. of_char c AND 31) prefix"

text \<open>
  \<open>checksumToArray\<close> takes the low five bits eight times, dividing by 32 in between, and
  reverses. The checksum is a non-negative integer below \<open>2 ^ 40\<close>, so the floating-point
  division is exact and \<open>& 31\<close> reads the integer part modulo 32.
\<close>

fun checksumToArray_loop :: "nat \<Rightarrow> int \<Rightarrow> bytes" where
  "checksumToArray_loop 0 checksum = []"
| "checksumToArray_loop (Suc n) checksum =
     word_of_int (checksum mod 32) # checksumToArray_loop n (checksum div 32)"

definition checksumToArray :: "int \<Rightarrow> bytes" where
  "checksumToArray checksum = rev (checksumToArray_loop 8 checksum)"

subsection \<open>polymod\<close>

text \<open>The inner loop over the five generators, for \<open>i\<close> from 0.\<close>

fun polymod_gen :: "int32 \<Rightarrow> nat list \<Rightarrow> int32 \<times> int32 \<Rightarrow> int32 \<times> int32" where
  "polymod_gen c [] (c0, c1) = (c0, c1)"
| "polymod_gen c (i # is) (c0, c1) =
     (if c AND js_shl 1 i \<noteq> 0
      then polymod_gen c is (c0 XOR GENERATOR1 ! i, c1 XOR GENERATOR2 ! i)
      else polymod_gen c is (c0, c1))"

definition polymod_step :: "int32 \<times> int32 \<Rightarrow> byte \<Rightarrow> int32 \<times> int32" where
  "polymod_step s d =
     (case s of (c0, c1) \<Rightarrow>
        let c = js_shr c0 3;
            c0a = js_shl (c0 AND 0x07) 5 OR js_shr c1 27;
            c1a = js_shl (c1 AND 0x07ffffff) 5 XOR ucast d
        in polymod_gen c [0 ..< length GENERATOR1] (c0a, c1a))"

definition polymod :: "bytes \<Rightarrow> int" where
  "polymod data =
     (case foldl polymod_step (0, 1) data of (c0, c1) \<Rightarrow>
        let c1x = c1 XOR 1;
            c1_unsigned = (if sint c1x < 0
                   then sint (c1x XOR js_shl 1 31) + sint (js_shl 1 30 :: int32) * 2
                   else sint c1x)
        in sint c0 * sint (js_shl 1 30 :: int32) * 4 + c1_unsigned)"

definition hasValidChecksum :: "string \<Rightarrow> bytes \<Rightarrow> bool" where
  "hasValidChecksum prefix payload \<longleftrightarrow>
     polymod (prefixToArray prefix @ [0] @ payload) = 0"

subsection \<open>Decoding and encoding\<close>

definition normalizeAddress :: "string \<Rightarrow> error + (string \<times> string)" where
  "normalizeAddress address =
     (if \<not> hasSingleCase address then Inl MixedCase
      else case split_on (CHR '':'') (toLowerCase address) of
             [p, e] \<Rightarrow> Inr (p, e)
           | _ \<Rightarrow> Inl InvalidFormat)"

record DecodedKaspaAddress =
  prefix :: string
  version :: byte
  payload :: bytes

definition decodeKaspaAddress :: "string \<Rightarrow> string list \<Rightarrow> error + DecodedKaspaAddress" where
  "decodeKaspaAddress address allowedPrefixes =
     (case normalizeAddress address of
        Inl e \<Rightarrow> Inl e
      | Inr (pre, encodedPayload) \<Rightarrow>
          (if pre \<notin> set (map toLowerCase allowedPrefixes) then Inl UnknownPrefix
           else
             (case base32Decode encodedPayload of
                Inl e \<Rightarrow> Inl e
              | Inr decoded \<Rightarrow>
                  (if \<not> hasValidChecksum pre decoded then Inl InvalidChecksum
                   else
                     (case convertBits (take (length decoded - 8) decoded) 5 8 True of
                        Inl e \<Rightarrow> Inl e
                      | Inr converted \<Rightarrow>
                          (case converted of
                             [] \<Rightarrow> Inl EmptyPayload
                           | v # rest \<Rightarrow>
                               Inr \<lparr>prefix = pre, version = v, payload = rest\<rparr>))))))"

definition encodeKaspaAddress :: "bytes \<Rightarrow> string \<Rightarrow> byte \<Rightarrow> error + string" where
  "encodeKaspaAddress pl pre ver =
     (let normalizedPrefix = toLowerCase pre;
          prefixData = prefixToArray normalizedPrefix @ [0]
      in case convertBits (ver # pl) 8 5 False of
           Inl e \<Rightarrow> Inl e
         | Inr payloadData \<Rightarrow>
             (let checksumInput = prefixData @ payloadData @ replicate 8 0;
                  checksum = checksumToArray (polymod checksumInput);
                  fullPayload = payloadData @ checksum
              in case base32Encode fullPayload of
                   Inl e \<Rightarrow> Inl e
                 | Inr s \<Rightarrow> Inr (normalizedPrefix @ '':'' @ s)))"

definition publicKeyToKaspaAddress :: "bytes \<Rightarrow> string \<Rightarrow> error + string" where
  "publicKeyToKaspaAddress publicKey pre = encodeKaspaAddress publicKey pre 0x00"

definition addressToScriptPublicKey :: "string \<Rightarrow> string list \<Rightarrow> error + bytes" where
  "addressToScriptPublicKey address allowedPrefixes =
     (case decodeKaspaAddress address allowedPrefixes of
        Inl e \<Rightarrow> Inl e
      | Inr decoded \<Rightarrow>
          if version decoded = 0x00 then
            (if length (payload decoded) = 32
             then Inr ([0x20] @ payload decoded @ [0xac]) else Inl InvalidKeyLength)
          else if version decoded = 0x01 then
            (if length (payload decoded) = 33
             then Inr ([0x21] @ payload decoded @ [0xab]) else Inl InvalidKeyLength)
          else if version decoded = 0x08 then
            (if length (payload decoded) = 32
             then Inr ([0xaa, 0x20] @ payload decoded @ [0x87]) else Inl InvalidHashLength)
          else Inl UnsupportedVersion)"


section \<open>The transaction signing engine (lib/transaction.ts)\<close>

subsection \<open>Library primitives\<close>

text \<open>
  The hash, the curve and \<open>Buffer\<close>'s hex decoder come from libraries that are not part of
  the repository. They are parameters of the model: \<open>blake2b data key\<close> is
  \<open>blake2b(data, {dkLen: 32, key})\<close>; \<open>schnorr_sign message privateKey auxRand\<close> is
  \<open>schnorr.sign(message, privateKey)\<close>, whose third argument defaults to fresh random
  bytes, so every call of the model names the bytes it draws; \<open>hexDecode\<close> is
  \<open>Buffer.from(hex, 'hex')\<close>.
\<close>

record prims =
  blake2b :: "bytes \<Rightarrow> bytes option \<Rightarrow> bytes"
  isValidPrivateKey :: "bytes \<Rightarrow> bool"
  schnorr_sign :: "bytes \<Rightarrow> bytes \<Rightarrow> bytes \<Rightarrow> bytes"
  hexDecode :: "string \<Rightarrow> bytes"

definition bindE :: "error + 'a \<Rightarrow> ('a \<Rightarrow> error + 'b) \<Rightarrow> error + 'b" where
  "bindE m f = (case m of Inl e \<Rightarrow> Inl e | Inr x \<Rightarrow> f x)"

text \<open>\<open>xs.forEach(f)\<close> where \<open>f\<close> updates a state and may throw.\<close>

fun forEachE :: "('s \<Rightarrow> 'a \<Rightarrow> error + 's) \<Rightarrow> 'a list \<Rightarrow> 's \<Rightarrow> error + 's" where
  "forEachE f [] s = Inr s"
| "forEachE f (x # xs) s = bindE (f s x) (forEachE f xs)"

definition TRANSACTION_SIGNING_HASH_KEY :: bytes where
  "TRANSACTION_SIGNING_HASH_KEY = map of_char ''TransactionSigningHash''"

text \<open>The hash types are JavaScript numbers; \<open>&\<close> takes them modulo \<open>2 ^ 32\<close>.\<close>

definition SIGHASH_ALL :: int where
  "SIGHASH_ALL = 1"

definition SIGHASH_NONE :: int where
  "SIGHASH_NONE = 2"

definition SIGHASH_SINGLE :: int where
  "SIGHASH_SINGLE = 4"

definition SIGHASH_ANYONECANPAY :: int where
  "SIGHASH_ANYONECANPAY = 128"

definition SIGHASH_MASK :: int where
  "SIGHASH_MASK = 7"

definition DEFAULT_SUBNETWORK_ID :: string where
  "DEFAULT_SUBNETWORK_ID = ''0000000000000000000000000000000000000000''"

definition js_and :: "int \<Rightarrow> int \<Rightarrow> int" where
  "js_and a b = sint ((word_of_int a :: int32) AND word_of_int b)"

definition blake2b256 :: "prims \<Rightarrow> bytes \<Rightarrow> bytes option \<Rightarrow> bytes" where
  "blake2b256 P data key = blake2b P data key"

definition hexDigit :: "nat \<Rightarrow> char" where
  "hexDigit n = ''0123456789abcdef'' ! n"

definition bytesToHex :: "bytes \<Rightarrow> string" where
  "bytesToHex bs = concat (map (\<lambda>b. [hexDigit (unat b div 16), hexDigit (unat b mod 16)]) bs)"

definition hexToBytes :: "prims \<Rightarrow> string \<Rightarrow> bytes" where
  "hexToBytes P hex = hexDecode P hex"

definition isSigHashNone :: "int \<Rightarrow> bool" where
  "isSigHashNone hashType \<longleftrightarrow> js_and hashType SIGHASH_MASK = SIGHASH_NONE"

definition isSigHashSingle :: "int \<Rightarrow> bool" where
  "isSigHashSingle hashType \<longleftrightarrow> js_and hashType SIGHASH_MASK = SIGHASH_SINGLE"

definition isSigHashAnyoneCanPay :: "int \<Rightarrow> bool" where
  "isSigHashAnyoneCanPay hashType \<longleftrightarrow>
     js_and hashType SIGHASH_ANYONECANPAY = SIGHASH_ANYONECANPAY"

subsection \<open>HashWriter\<close>

text \<open>
  A writer holds the chunks written so far and the sum of their lengths, and \<open>toBuffer\<close>
  concatenates them: the model keeps the concatenation. The integer writers of \<open>Buffer\<close>
  store a value little-endian and throw a \<open>RangeError\<close> for a value that does not fit.
\<close>

type_synonym HashWriter = bytes

fun le_bytes :: "nat \<Rightarrow> int \<Rightarrow> bytes" where
  "le_bytes 0 v = []"
| "le_bytes (Suc n) v = word_of_int v # le_bytes n (v div 256)"

definition writeRaw :: "HashWriter \<Rightarrow> bytes \<Rightarrow> HashWriter" where
  "writeRaw w buffer = w @ buffer"

definition writeHash :: "HashWriter \<Rightarrow> bytes \<Rightarrow> HashWriter" where
  "writeHash w hash = writeRaw w hash"

definition writeUInt8 :: "HashWriter \<Rightarrow> int \<Rightarrow> error + HashWriter" where
  "writeUInt8 w v =
     (if 0 \<le> v \<and> v \<le> 0xff then Inr (writeRaw w (le_bytes 1 v)) else Inl RangeError)"

definition writeUInt16LE :: "HashWriter \<Rightarrow> int \<Rightarrow> error + HashWriter" where
  "writeUInt16LE w v =
     (if 0 \<le> v \<and> v \<le> 0xffff then Inr (writeRaw w (le_bytes 2 v)) else Inl RangeError)"

definition writeUInt32LE :: "HashWriter \<Rightarrow> int \<Rightarrow> error + HashWriter" where
  "writeUInt32LE w v =
     (if 0 \<le> v \<and> v \<le> 0xffffffff then Inr (writeRaw w (le_bytes 4 v)) else Inl RangeError)"

definition writeUInt64LE :: "HashWriter \<Rightarrow> int \<Rightarrow> error + HashWriter" where
  "writeUInt64LE w v =
     (if 0 \<le> v \<and> v \<le> 0xffffffffffffffff then Inr (writeRaw w (le_bytes 8 v))
      else Inl RangeError)"

definition writeVarBytes :: "HashWriter \<Rightarrow> bytes \<Rightarrow> error + HashWriter" where
  "writeVarBytes w buffer =
     bindE (writeUInt64LE w (int (length buffer))) (\<lambda>w'. Inr (writeRaw w' buffer))"

definition finalize :: "prims \<Rightarrow> HashWriter \<Rightarrow> bytes" where
  "finalize P w = blake2b256 P w (Some TRANSACTION_SIGNING_HASH_KEY)"

definition zeroHash :: bytes where
  "zeroHash = replicate 32 0"

definition zeroSubnetworkId :: bytes where
  "zeroSubnetworkId = replicate 20 0"

subsection \<open>The working transaction\<close>

text \<open>
  Field \<open>f\<close> of an interface is named with the interface's initials in front, since the
  interfaces share field names. Amounts and the lock time are \<open>bigint\<close>s, and the
  \<open>number\<close>s of the interfaces hold integers: both are \<open>int\<close>.
\<close>

record Outpoint =
  op_transactionId :: string
  op_index :: int

record SerializableInput =
  si_previousOutpoint :: Outpoint
  si_signatureScript :: string
  si_sequence :: int
  si_sigOpCount :: int

record ScriptPublicKey =
  spk_version :: int
  spk_scriptPublicKey :: string

record SerializableOutput =
  so_amount :: int
  so_scriptPublicKey :: ScriptPublicKey

record SigningUtxo =
  su_scriptPublicKey :: bytes
  su_amount :: int

record SerializableTransaction =
  st_version :: int
  st_inputs :: "SerializableInput list"
  st_outputs :: "SerializableOutput list"
  st_lockTime :: int
  st_subnetworkId :: string
  st_utxos :: "SigningUtxo list"

record HashCache =
  previousOutputsHash :: "bytes option"
  sequencesHash :: "bytes option"
  sigOpCountsHash :: "bytes option"
  outputsHash :: "bytes option"

definition emptyCache :: HashCache where
  "emptyCache = \<lparr>previousOutputsHash = None, sequencesHash = None,
                  sigOpCountsHash = None, outputsHash = None\<rparr>"

definition hashOutpoint :: "prims \<Rightarrow> HashWriter \<Rightarrow> SerializableInput \<Rightarrow> error + HashWriter" where
  "hashOutpoint P w input =
     writeUInt32LE (writeHash w (hexToBytes P (op_transactionId (si_previousOutpoint input))))
       (op_index (si_previousOutpoint input))"

definition hashOutput :: "prims \<Rightarrow> HashWriter \<Rightarrow> SerializableOutput \<Rightarrow> error + HashWriter" where
  "hashOutput P w output =
     bindE (writeUInt64LE w (so_amount output)) (\<lambda>w1.
     bindE (writeUInt16LE w1 (spk_version (so_scriptPublicKey output))) (\<lambda>w2.
     writeVarBytes w2 (hexToBytes P (spk_scriptPublicKey (so_scriptPublicKey output)))))"

subsection \<open>The four memoized sub-hashes\<close>

text \<open>
  Each function returns what it returns or throws, together with the cache as it leaves
  it. A \<open>Uint8Array\<close> is truthy, so \<open>!cache.field\<close> asks whether the field is unset.
\<close>

definition getPreviousOutputsHash ::
  "prims \<Rightarrow> SerializableTransaction \<Rightarrow> int \<Rightarrow> HashCache \<Rightarrow> (error + bytes) \<times> HashCache" where
  "getPreviousOutputsHash P tx hashType cache =
     (if isSigHashAnyoneCanPay hashType then (Inr zeroHash, cache)
      else
        (case previousOutputsHash cache of
           Some h \<Rightarrow> (Inr h, cache)
         | None \<Rightarrow>
             (case forEachE (hashOutpoint P) (st_inputs tx) [] of
                Inl e \<Rightarrow> (Inl e, cache)
              | Inr w \<Rightarrow>
                  (Inr (finalize P w), cache\<lparr>previousOutputsHash := Some (finalize P w)\<rparr>))))"

definition getSequencesHash ::
  "prims \<Rightarrow> SerializableTransaction \<Rightarrow> int \<Rightarrow> HashCache \<Rightarrow> (error + bytes) \<times> HashCache" where
  "getSequencesHash P tx hashType cache =
     (if isSigHashSingle hashType \<or> isSigHashAnyoneCanPay hashType \<or> isSigHashNone hashType
      then (Inr zeroHash, cache)
      else
        (case sequencesHash cache of
           Some h \<Rightarrow> (Inr h, cache)
         | None \<Rightarrow>
             (case forEachE (\<lambda>w input. writeUInt64LE w (si_sequence input)) (st_inputs tx) [] of
                Inl e \<Rightarrow> (Inl e, cache)
              | Inr w \<Rightarrow>
                  (Inr (finalize P w), cache\<lparr>sequencesHash := Some (finalize P w)\<rparr>))))"

definition getSigOpCountsHash ::
  "prims \<Rightarrow> SerializableTransaction \<Rightarrow> int \<Rightarrow> HashCache \<Rightarrow> (error + bytes) \<times> HashCache" where
  "getSigOpCountsHash P tx hashType cache =
     (if isSigHashAnyoneCanPay hashType then (Inr zeroHash, cache)
      else
        (case sigOpCountsHash cache of
           Some h \<Rightarrow> (Inr h, cache)
         | None \<Rightarrow>
             (case forEachE (\<lambda>w input. writeUInt8 w 1) (st_inputs tx) [] of
                Inl e \<Rightarrow> (Inl e, cache)
              | Inr w \<Rightarrow>
                  (Inr (finalize P w), cache\<lparr>sigOpCountsHash := Some (finalize P w)\<rparr>))))"

definition getOutputsHash ::
  "prims \<Rightarrow> SerializableTransaction \<Rightarrow> nat \<Rightarrow> int \<Rightarrow> HashCache \<Rightarrow> (error + bytes) \<times> HashCache" where
  "getOutputsHash P tx inputIndex hashType cache =
     (if isSigHashNone hashType then (Inr zeroHash, cache)
      else if isSigHashSingle hashType then
        (if inputIndex \<ge> length (st_outputs tx) then (Inr zeroHash, cache)
         else
           (case hashOutput P [] (st_outputs tx ! inputIndex) of
              Inl e \<Rightarrow> (Inl e, cache)
            | Inr w \<Rightarrow> (Inr (finalize P w), cache)))
      else
        (case outputsHash cache of
           Some h \<Rightarrow> (Inr h, cache)
         | None \<Rightarrow>
             (case forEachE (hashOutput P) (st_outputs tx) [] of
                Inl e \<Rightarrow> (Inl e, cache)
              | Inr w \<Rightarrow>
                  (Inr (finalize P w), cache\<lparr>outputsHash := Some (finalize P w)\<rparr>))))"

subsection \<open>calculateSigHash\<close>

text \<open>
  \<open>thenC\<close> runs the next statements on the result and the cache of the previous ones, or
  passes on what was thrown. \<open>transaction.inputs[inputIndex]\<close> beyond the end is
  \<open>undefined\<close>, and reading a field of it throws a \<open>TypeError\<close>.
\<close>

definition thenC ::
  "(error + 'a) \<times> HashCache \<Rightarrow> ('a \<Rightarrow> HashCache \<Rightarrow> (error + 'b) \<times> HashCache)
     \<Rightarrow> (error + 'b) \<times> HashCache" where
  "thenC r f = (case r of (Inl e, c) \<Rightarrow> (Inl e, c) | (Inr x, c) \<Rightarrow> f x c)"

definition at_index :: "'a list \<Rightarrow> nat \<Rightarrow> 'a option" where
  "at_index xs i = (if i < length xs then Some (xs ! i) else None)"

definition writeInputFields ::
  "prims \<Rightarrow> HashWriter \<Rightarrow> SerializableInput option \<Rightarrow> SigningUtxo option \<Rightarrow> error + HashWriter" where
  "writeInputFields P w input utxo =
     (case input of
        None \<Rightarrow> Inl TypeError
      | Some inp \<Rightarrow>
          bindE (hashOutpoint P w inp) (\<lambda>w1.
          bindE (writeUInt16LE w1 0) (\<lambda>w2.
          (case utxo of
             None \<Rightarrow> Inl TypeError
           | Some u \<Rightarrow>
               bindE (writeVarBytes w2 (su_scriptPublicKey u)) (\<lambda>w3.
               bindE (writeUInt64LE w3 (su_amount u)) (\<lambda>w4.
               bindE (writeUInt64LE w4 (si_sequence inp)) (\<lambda>w5.
               writeUInt8 w5 1)))))))"

definition writeTrailer :: "HashWriter \<Rightarrow> int \<Rightarrow> int \<Rightarrow> error + HashWriter" where
  "writeTrailer w lockTime hashType =
     bindE (writeUInt64LE w lockTime) (\<lambda>w1.
     bindE (writeUInt64LE (writeHash w1 zeroSubnetworkId) 0) (\<lambda>w2.
     writeUInt8 (writeHash w2 zeroHash) hashType))"

definition calculateSigHash ::
  "prims \<Rightarrow> SerializableTransaction \<Rightarrow> int \<Rightarrow> nat \<Rightarrow> HashCache \<Rightarrow> (error + bytes) \<times> HashCache" where
  "calculateSigHash P tx hashType inputIndex cache =
     (let input = at_index (st_inputs tx) inputIndex;
          utxo = at_index (st_utxos tx) inputIndex
      in thenC (writeUInt16LE [] (st_version tx), cache) (\<lambda>w0 c0.
         thenC (getPreviousOutputsHash P tx hashType c0) (\<lambda>h1 c1.
         thenC (getSequencesHash P tx hashType c1) (\<lambda>h2 c2.
         thenC (getSigOpCountsHash P tx hashType c2) (\<lambda>h3 c3.
         thenC (writeInputFields P (writeHash (writeHash (writeHash w0 h1) h2) h3) input utxo, c3)
           (\<lambda>w4 c4.
         thenC (getOutputsHash P tx inputIndex hashType c4) (\<lambda>h5 c5.
         thenC (writeTrailer (writeHash w4 h5) (st_lockTime tx) hashType, c5) (\<lambda>w6 c6.
         (Inr (finalize P w6), c6)))))))))"

subsection \<open>buildSignedTransaction\<close>

record TransactionSigningInput =
  tsi_txId :: string
  tsi_vOut :: int
  tsi_address :: string
  tsi_amount :: int

record TransactionSigningOutput =
  tso_address :: string
  tso_amount :: int

record TransactionSigningParams =
  inputs :: "TransactionSigningInput list"
  outputs :: "TransactionSigningOutput list"
  changeAddress :: string
  fee :: int
  privateKey :: bytes
  addressPrefixes :: "string list"
  dustThreshold :: "int option"

record PayloadOutput =
  po_amount :: string
  po_scriptPublicKey :: ScriptPublicKey

record PayloadTransaction =
  pt_version :: int
  pt_inputs :: "SerializableInput list"
  pt_outputs :: "PayloadOutput list"
  pt_lockTime :: string
  pt_subnetworkId :: string

record SignedTransactionPayload =
  transaction :: PayloadTransaction
  allowOrphan :: bool

text \<open>\<open>BigInt(value)\<close> of a number that holds an integer is that integer.\<close>

definition toSafeBigInt :: "int \<Rightarrow> int" where
  "toSafeBigInt v = v"

text \<open>\<open>bigint.toString()\<close>: the decimal digits, after a minus sign for a negative value.\<close>

fun decimal :: "nat \<Rightarrow> string" where
  "decimal n =
     (if n < 10 then [hexDigit n] else decimal (n div 10) @ [hexDigit (n mod 10)])"

declare decimal.simps [simp del]

definition bigintToString :: "int \<Rightarrow> string" where
  "bigintToString i = (if i < 0 then CHR ''-'' # decimal (nat (- i)) else decimal (nat i))"

text \<open>The first loop: one input record and one UTXO descriptor per requested input.\<close>

fun addInputs ::
  "string list \<Rightarrow> TransactionSigningInput list \<Rightarrow> SerializableTransaction \<Rightarrow> int
     \<Rightarrow> error + (SerializableTransaction \<times> int)" where
  "addInputs prefixes [] tx totalInput = Inr (tx, totalInput)"
| "addInputs prefixes (input # rest) tx totalInput =
     (let amount = toSafeBigInt (tsi_amount input)
      in case addressToScriptPublicKey (tsi_address input) prefixes of
           Inl e \<Rightarrow> Inl e
         | Inr script \<Rightarrow>
             addInputs prefixes rest
               (tx\<lparr>st_inputs := st_inputs tx @
                      [\<lparr>si_previousOutpoint =
                          \<lparr>op_transactionId = tsi_txId input, op_index = tsi_vOut input\<rparr>,
                        si_signatureScript = [], si_sequence = 0, si_sigOpCount = 1\<rparr>],
                    st_utxos := st_utxos tx @
                      [\<lparr>su_scriptPublicKey = script, su_amount = amount\<rparr>]\<rparr>)
               (totalInput + amount))"

text \<open>The second loop: the amount is checked, then the address is resolved.\<close>

fun addOutputs ::
  "string list \<Rightarrow> TransactionSigningOutput list \<Rightarrow> SerializableTransaction \<Rightarrow> int
     \<Rightarrow> error + (SerializableTransaction \<times> int)" where
  "addOutputs prefixes [] tx totalOutput = Inr (tx, totalOutput)"
| "addOutputs prefixes (output # rest) tx totalOutput =
     (let amount = toSafeBigInt (tso_amount output)
      in if amount \<le> 0 then Inl NonPositiveOutputAmount
         else
           (case addressToScriptPublicKey (tso_address output) prefixes of
              Inl e \<Rightarrow> Inl e
            | Inr script \<Rightarrow>
                addOutputs prefixes rest
                  (tx\<lparr>st_outputs := st_outputs tx @
                         [\<lparr>so_amount = amount,
                           so_scriptPublicKey =
                             \<lparr>spk_version = 0, spk_scriptPublicKey = bytesToHex script\<rparr>\<rparr>]\<rparr>)
                  (totalOutput + amount)))"

text \<open>The change output, appended when the change reaches the dust threshold.\<close>

definition addChange ::
  "TransactionSigningParams \<Rightarrow> SerializableTransaction \<Rightarrow> int \<Rightarrow> error + SerializableTransaction" where
  "addChange params tx changeAmount =
     (let threshold = (case dustThreshold params of None \<Rightarrow> 546 | Some t \<Rightarrow> t)
      in if changeAmount \<ge> threshold then
           (case addressToScriptPublicKey (changeAddress params) (addressPrefixes params) of
              Inl e \<Rightarrow> Inl e
            | Inr script \<Rightarrow>
                Inr (tx\<lparr>st_outputs := st_outputs tx @
                       [\<lparr>so_amount = changeAmount,
                         so_scriptPublicKey =
                           \<lparr>spk_version = 0, spk_scriptPublicKey = bytesToHex script\<rparr>\<rparr>]\<rparr>))
         else Inr tx)"

text \<open>
  The statements of \<open>buildSignedTransaction\<close> before the signing loop: the four checks,
  the two loops, the balance check and the change output.
\<close>

definition buildUnsigned :: "prims \<Rightarrow> TransactionSigningParams \<Rightarrow> error + SerializableTransaction" where
  "buildUnsigned P params =
     (if \<not> isValidPrivateKey P (privateKey params) then Inl InvalidPrivateKey
      else if length (inputs params) = 0 then Inl NoInputs
      else if length (outputs params) = 0 then Inl NoOutputs
      else if toSafeBigInt (fee params) < 0 then Inl NegativeFee
      else
        (let tx0 = \<lparr>st_version = 0, st_inputs = [], st_outputs = [], st_lockTime = 0,
                    st_subnetworkId = DEFAULT_SUBNETWORK_ID, st_utxos = []\<rparr>
         in case addInputs (addressPrefixes params) (inputs params) tx0 0 of
              Inl e \<Rightarrow> Inl e
            | Inr (tx1, totalInput) \<Rightarrow>
                (case addOutputs (addressPrefixes params) (outputs params) tx1 0 of
                   Inl e \<Rightarrow> Inl e
                 | Inr (tx2, totalOutput) \<Rightarrow>
                     (let changeAmount = totalInput - totalOutput - toSafeBigInt (fee params)
                      in if changeAmount < 0 then Inl InsufficientBalance
                         else addChange params tx2 changeAmount))))"

text \<open>
  The signing loop over the inputs, by index, with the shared cache; \<open>rand index\<close> is the
  auxiliary randomness that the signature of input \<open>index\<close> draws.
\<close>

fun signInputs ::
  "prims \<Rightarrow> (nat \<Rightarrow> bytes) \<Rightarrow> bytes \<Rightarrow> nat list \<Rightarrow> SerializableTransaction \<Rightarrow> HashCache
     \<Rightarrow> error + SerializableTransaction" where
  "signInputs P rand key [] tx cache = Inr tx"
| "signInputs P rand key (index # rest) tx cache =
     (case calculateSigHash P tx SIGHASH_ALL index cache of
        (Inl e, c) \<Rightarrow> Inl e
      | (Inr sigHash, c) \<Rightarrow>
          (let signature = schnorr_sign P sigHash key (rand index);
               script = bytesToHex ([0x41] @ signature @ [word_of_int SIGHASH_ALL])
           in signInputs P rand key rest
                (tx\<lparr>st_inputs := (st_inputs tx)
                       [index := (st_inputs tx ! index)\<lparr>si_signatureScript := script\<rparr>]\<rparr>)
                c))"

definition toPayload :: "SerializableTransaction \<Rightarrow> SignedTransactionPayload" where
  "toPayload tx =
     \<lparr>transaction =
        \<lparr>pt_version = st_version tx,
         pt_inputs = st_inputs tx,
         pt_outputs = map (\<lambda>output. \<lparr>po_amount = bigintToString (so_amount output),
                                      po_scriptPublicKey = so_scriptPublicKey output\<rparr>)
                        (st_outputs tx),
         pt_lockTime = bigintToString (st_lockTime tx),
         pt_subnetworkId = st_subnetworkId tx\<rparr>,
      allowOrphan = False\<rparr>"

definition buildSignedTransaction ::
  "prims \<Rightarrow> (nat \<Rightarrow> bytes) \<Rightarrow> TransactionSigningParams \<Rightarrow> error + SignedTransactionPayload" where
  "buildSignedTransaction P rand params =
     (case buildUnsigned P params of
        Inl e \<Rightarrow> Inl e
      | Inr tx \<Rightarrow>
          (case signInputs P rand (privateKey params) [0 ..< length (st_inputs tx)] tx emptyCache of
             Inl e \<Rightarrow> Inl e
           | Inr signedTx \<Rightarrow> Inr (toPayload signedTx)))"


section \<open>Notions of the specification\<close>

subsection \<open>Valid prefixes, amounts read back\<close>

text \<open>
  The model's strings are ASCII text. A valid prefix, for the round trip, is a network
  prefix as \<open>encodeKaspaAddress\<close> emits it and \<open>decodeKaspaAddress\<close> returns it: ASCII
  characters, none of them the separator or an upper-case letter.
\<close>

definition asciiString :: "string \<Rightarrow> bool" where
  "asciiString s \<longleftrightarrow> (\<forall>c\<in>set s. (of_char c :: nat) < 128)"

definition validPrefix :: "string \<Rightarrow> bool" where
  "validPrefix pre \<longleftrightarrow>
     (\<forall>c\<in>set pre. (of_char c :: nat) < 128 \<and> c \<noteq> CHR '':'' \<and>
                    \<not> (65 \<le> (of_char c :: nat) \<and> (of_char c :: nat) \<le> 90))"

text \<open>The number of separators in an address.\<close>

definition separators :: "string \<Rightarrow> nat" where
  "separators s = length (filter (\<lambda>c. c = CHR '':'') s)"

text \<open>
  The amount that a decimal string of the payload stands for, which is how the receiver
  of the payload reads \<open>amount\<close> back.
\<close>

definition digitValue :: "char \<Rightarrow> int" where
  "digitValue c = of_char c - 48"

definition amountOf :: "string \<Rightarrow> int" where
  "amountOf s =
     (case s of
        [] \<Rightarrow> 0
      | c # ds \<Rightarrow>
          if c = CHR ''-'' then - foldl (\<lambda>a d. 10 * a + digitValue d) 0 ds
          else foldl (\<lambda>a d. 10 * a + digitValue d) 0 s)"

definition payloadOutputTotal :: "SignedTransactionPayload \<Rightarrow> int" where
  "payloadOutputTotal pl = sum_list (map (\<lambda>out. amountOf (po_amount out)) (pt_outputs (transaction pl)))"

definition inputTotal :: "TransactionSigningParams \<Rightarrow> int" where
  "inputTotal params = sum_list (map tsi_amount (inputs params))"

definition outputTotal :: "TransactionSigningParams \<Rightarrow> int" where
  "outputTotal params = sum_list (map tso_amount (outputs params))"

definition changeOf :: "TransactionSigningParams \<Rightarrow> int" where
  "changeOf params = inputTotal params - outputTotal params - fee params"

definition thresholdOf :: "TransactionSigningParams \<Rightarrow> int" where
  "thresholdOf params = (case dustThreshold params of None \<Rightarrow> 546 | Some t \<Rightarrow> t)"

text \<open>An address resolves when its spend script can be derived.\<close>

definition resolves :: "string list \<Rightarrow> string \<Rightarrow> bool" where
  "resolves prefixes address \<longleftrightarrow>
     (case addressToScriptPublicKey address prefixes of Inl e \<Rightarrow> False | Inr script \<Rightarrow> True)"

text \<open>The output record that the payload carries for an amount sent to an address.\<close>

definition payloadOutputFor :: "string list \<Rightarrow> string \<Rightarrow> int \<Rightarrow> PayloadOutput" where
  "payloadOutputFor prefixes address amount =
     \<lparr>po_amount = bigintToString amount,
      po_scriptPublicKey =
        \<lparr>spk_version = 0,
         spk_scriptPublicKey =
           (case addressToScriptPublicKey address prefixes of
              Inl e \<Rightarrow> []
            | Inr script \<Rightarrow> bytesToHex script)\<rparr>\<rparr>"

subsection \<open>The signature hash without a cache\<close>

text \<open>
  The specification's four sub-hashes, each recomputed from the transaction: the previous
  outputs hash is zero under ANYONECANPAY and otherwise the keyed hash of every input's
  outpoint; the sequences hash is zero under SINGLE, ANYONECANPAY or NONE and otherwise the
  hash of every input's sequence; the sig-op counts hash is zero under ANYONECANPAY and
  otherwise the hash of one byte 1 per input; the outputs hash is zero under NONE, under
  SINGLE the hash of the output at the input's index (zero beyond the outputs), and
  otherwise the hash of every output.
\<close>

definition hashed :: "prims \<Rightarrow> error + HashWriter \<Rightarrow> error + bytes" where
  "hashed P r = bindE r (\<lambda>w. Inr (finalize P w))"

definition allOutpointsHash :: "prims \<Rightarrow> SerializableTransaction \<Rightarrow> error + bytes" where
  "allOutpointsHash P tx = hashed P (forEachE (hashOutpoint P) (st_inputs tx) [])"

definition allSequencesHash :: "prims \<Rightarrow> SerializableTransaction \<Rightarrow> error + bytes" where
  "allSequencesHash P tx =
     hashed P (forEachE (\<lambda>w input. writeUInt64LE w (si_sequence input)) (st_inputs tx) [])"

definition allSigOpCountsHash :: "prims \<Rightarrow> SerializableTransaction \<Rightarrow> error + bytes" where
  "allSigOpCountsHash P tx = hashed P (forEachE (\<lambda>w input. writeUInt8 w 1) (st_inputs tx) [])"

definition allOutputsHash :: "prims \<Rightarrow> SerializableTransaction \<Rightarrow> error + bytes" where
  "allOutputsHash P tx = hashed P (forEachE (hashOutput P) (st_outputs tx) [])"

definition spec_previousOutputsHash :: "prims \<Rightarrow> SerializableTransaction \<Rightarrow> int \<Rightarrow> error + bytes" where
  "spec_previousOutputsHash P tx hashType =
     (if isSigHashAnyoneCanPay hashType then Inr zeroHash else allOutpointsHash P tx)"

definition spec_sequencesHash :: "prims \<Rightarrow> SerializableTransaction \<Rightarrow> int \<Rightarrow> error + bytes" where
  "spec_sequencesHash P tx hashType =
     (if isSigHashSingle hashType \<or> isSigHashAnyoneCanPay hashType \<or> isSigHashNone hashType
      then Inr zeroHash else allSequencesHash P tx)"

definition spec_sigOpCountsHash :: "prims \<Rightarrow> SerializableTransaction \<Rightarrow> int \<Rightarrow> error + bytes" where
  "spec_sigOpCountsHash P tx hashType =
     (if isSigHashAnyoneCanPay hashType then Inr zeroHash else allSigOpCountsHash P tx)"

definition spec_outputsHash :: "prims \<Rightarrow> SerializableTransaction \<Rightarrow> nat \<Rightarrow> int \<Rightarrow> error + bytes" where
  "spec_outputsHash P tx inputIndex hashType =
     (if isSigHashNone hashType then Inr zeroHash
      else if isSigHashSingle hashType then
        (if inputIndex \<ge> length (st_outputs tx) then Inr zeroHash
         else hashed P (hashOutput P [] (st_outputs tx ! inputIndex)))
      else allOutputsHash P tx)"

definition spec_sigHash :: "prims \<Rightarrow> SerializableTransaction \<Rightarrow> int \<Rightarrow> nat \<Rightarrow> error + bytes" where
  "spec_sigHash P tx hashType inputIndex =
     bindE (writeUInt16LE [] (st_version tx)) (\<lambda>w0.
     bindE (spec_previousOutputsHash P tx hashType) (\<lambda>h1.
     bindE (spec_sequencesHash P tx hashType) (\<lambda>h2.
     bindE (spec_sigOpCountsHash P tx hashType) (\<lambda>h3.
     bindE (writeInputFields P (writeHash (writeHash (writeHash w0 h1) h2) h3)
              (at_index (st_inputs tx) inputIndex) (at_index (st_utxos tx) inputIndex)) (\<lambda>w4.
     bindE (spec_outputsHash P tx inputIndex hashType) (\<lambda>h5.
     bindE (writeTrailer (writeHash w4 h5) (st_lockTime tx) hashType) (\<lambda>w6.
     Inr (finalize P w6))))))))"

text \<open>
  A cache belongs to a transaction when every entry it holds is the hash that the
  transaction gives: the state of a cache that calls on that transaction have filled,
  in part or in full, from the empty one.
\<close>

definition cacheConsistent :: "prims \<Rightarrow> SerializableTransaction \<Rightarrow> HashCache \<Rightarrow> bool" where
  "cacheConsistent P tx cache \<longleftrightarrow>
     (case previousOutputsHash cache of None \<Rightarrow> True | Some h \<Rightarrow> allOutpointsHash P tx = Inr h) \<and>
     (case sequencesHash cache of None \<Rightarrow> True | Some h \<Rightarrow> allSequencesHash P tx = Inr h) \<and>
     (case sigOpCountsHash cache of None \<Rightarrow> True | Some h \<Rightarrow> allSigOpCountsHash P tx = Inr h) \<and>
     (case outputsHash cache of None \<Rightarrow> True | Some h \<Rightarrow> allOutputsHash P tx = Inr h)"

subsection \<open>The transaction that a request describes\<close>

text \<open>
  The script of an address that resolves, the records that the two loops append for an
  input and an output, and the working transaction as it stands before the signing loop.
\<close>

definition scriptOf :: "string list \<Rightarrow> string \<Rightarrow> bytes" where
  "scriptOf prefixes address =
     (case addressToScriptPublicKey address prefixes of Inl e \<Rightarrow> [] | Inr script \<Rightarrow> script)"

definition inputRecord :: "TransactionSigningInput \<Rightarrow> SerializableInput" where
  "inputRecord input =
     \<lparr>si_previousOutpoint = \<lparr>op_transactionId = tsi_txId input, op_index = tsi_vOut input\<rparr>,
      si_signatureScript = [], si_sequence = 0, si_sigOpCount = 1\<rparr>"

definition utxoRecord :: "string list \<Rightarrow> TransactionSigningInput \<Rightarrow> SigningUtxo" where
  "utxoRecord prefixes input =
     \<lparr>su_scriptPublicKey = scriptOf prefixes (tsi_address input), su_amount = tsi_amount input\<rparr>"

definition outputRecord :: "string list \<Rightarrow> string \<Rightarrow> int \<Rightarrow> SerializableOutput" where
  "outputRecord prefixes address amount =
     \<lparr>so_amount = amount,
      so_scriptPublicKey =
        \<lparr>spk_version = 0, spk_scriptPublicKey = bytesToHex (scriptOf prefixes address)\<rparr>\<rparr>"

definition unsignedTransaction :: "TransactionSigningParams \<Rightarrow> SerializableTransaction" where
  "unsignedTransaction params =
     \<lparr>st_version = 0,
      st_inputs = map inputRecord (inputs params),
      st_outputs =
        map (\<lambda>output. outputRecord (addressPrefixes params) (tso_address output) (tso_amount output))
          (outputs params)
        @ (if changeOf params \<ge> thresholdOf params
           then [outputRecord (addressPrefixes params) (changeAddress params) (changeOf params)]
           else []),
      st_lockTime = 0,
      st_subnetworkId = DEFAULT_SUBNETWORK_ID,
      st_utxos = map (utxoRecord (addressPrefixes params)) (inputs params)\<rparr>"

text \<open>The record of the payload for an output of the working transaction.\<close>

definition payloadOutput :: "SerializableOutput \<Rightarrow> PayloadOutput" where
  "payloadOutput out =
     \<lparr>po_amount = bigintToString (so_amount out), po_scriptPublicKey = so_scriptPublicKey out\<rparr>"

text \<open>
  The signature script of an input: the byte 0x41, the signature over the input's
  signature hash, the byte of SIGHASH_ALL, in hex.
\<close>

definition signatureScriptFor :: "prims \<Rightarrow> (nat \<Rightarrow> bytes) \<Rightarrow> bytes \<Rightarrow> bytes \<Rightarrow> nat \<Rightarrow> string" where
  "signatureScriptFor P rand key sigHash index =
     bytesToHex ([0x41] @ schnorr_sign P sigHash key (rand index) @ [0x01])"

text \<open>
  The values of a request that \<open>Buffer\<close>'s integer writers accept: an output index of
  32 bits, amounts of 64 bits, and decoded hex strings whose length fits 64 bits.
\<close>

definition fitsRanges :: "prims \<Rightarrow> TransactionSigningParams \<Rightarrow> bool" where
  "fitsRanges P params \<longleftrightarrow>
     (\<forall>i\<in>set (inputs params).
        0 \<le> tsi_vOut i \<and> tsi_vOut i \<le> 0xffffffff \<and>
        0 \<le> tsi_amount i \<and> tsi_amount i \<le> 0xffffffffffffffff) \<and>
     (\<forall>out\<in>set (outputs params). tso_amount out \<le> 0xffffffffffffffff) \<and>
     changeOf params \<le> 0xffffffffffffffff \<and>
     (\<forall>hex. int (length (hexDecode P hex)) \<le> 0xffffffffffffffff)"

subsection \<open>Concrete data\<close>

text \<open>
  Stand-ins for the library primitives, to run the model on concrete requests: a digest
  of 32 bytes and a signature of 64 bytes. No statement below depends on what they hold.
\<close>

definition demoPrims :: prims where
  "demoPrims =
     \<lparr>blake2b = (\<lambda>data key. take 32 (data @ replicate 32 0)),
      isValidPrivateKey = (\<lambda>key. length key = 32 \<and> key \<noteq> replicate 32 0),
      schnorr_sign = (\<lambda>message key aux. take 64 (message @ aux @ replicate 64 0)),
      hexDecode = (\<lambda>hex. [])\<rparr>"

definition demoKey :: bytes where
  "demoKey = replicate 32 7"

definition demoRand :: "nat \<Rightarrow> bytes" where
  "demoRand i = replicate 32 (of_nat i)"

text \<open>The address of the 32-byte key \<open>01 ... 01\<close> on the main network, version 0.\<close>

definition demoAddress :: string where
  "demoAddress = ''kaspa:qqqszqgpqyqszqgpqyqszqgpqyqszqgpqyqszqgpqyqszqgpqyqszu8g5qjdh''"

definition demoRequest :: "int list \<Rightarrow> int \<Rightarrow> int \<Rightarrow> TransactionSigningParams" where
  "demoRequest inAmounts outAmount feeAmount =
     \<lparr>inputs = map (\<lambda>(k, amount). \<lparr>tsi_txId = replicate 64 (CHR ''0''), tsi_vOut = int k,
                                       tsi_address = demoAddress, tsi_amount = amount\<rparr>)
                  (enumerate 0 inAmounts),
      outputs = [\<lparr>tso_address = demoAddress, tso_amount = outAmount\<rparr>],
      changeAddress = demoAddress,
      fee = feeAmount,
      privateKey = demoKey,
      addressPrefixes = [''kaspa''],
      dustThreshold = None\<rparr>"

section \<open>Auxiliary notions of the proofs\<close>

text \<open>The number that a list of \<open>w\<close>-bit digits writes, most significant digit first.\<close>

fun num_of :: "nat \<Rightarrow> bytes \<Rightarrow> nat" where
  "num_of w [] = 0"
| "num_of w (d # ds) = unat d * 2 ^ (w * length ds) + num_of w ds"

text \<open>
  The two halves of the checksum state: their bitwise sum, the shift by one symbol
  without the generators, and the halves of a 40-bit number.
\<close>

definition pxor :: "int32 \<times> int32 \<Rightarrow> int32 \<times> int32 \<Rightarrow> int32 \<times> int32" where
  "pxor a b = (fst a XOR fst b, snd a XOR snd b)"

definition shift5 :: "int32 \<times> int32 \<Rightarrow> byte \<Rightarrow> int32 \<times> int32" where
  "shift5 p d = (js_shl (fst p AND 0x07) 5 OR js_shr (snd p) 27,
                 js_shl (snd p AND 0x07ffffff) 5 XOR ucast d)"

definition pair_of :: "int \<Rightarrow> int32 \<times> int32" where
  "pair_of n = (word_of_int (drop_bit 32 n), word_of_int n)"

text \<open>What the two tables of the alphabet say about symbol \<open>n\<close>.\<close>

definition charsetOk :: "nat \<Rightarrow> bool" where
  "charsetOk n \<longleftrightarrow>
     map_of CHARSET_INVERSE_INDEX (CHARSET ! n) = Some (of_nat n) \<and>
     lowerChar (CHARSET ! n) = CHARSET ! n \<and> CHARSET ! n \<noteq> CHR '':''"


text \<open>Two transactions that differ in the signature scripts of their inputs at most.\<close>

definition clearScript :: "SerializableInput \<Rightarrow> SerializableInput" where
  "clearScript input = input\<lparr>si_signatureScript := []\<rparr>"

definition sameButScripts :: "SerializableTransaction \<Rightarrow> SerializableTransaction \<Rightarrow> bool" where
  "sameButScripts t t' \<longleftrightarrow>
     t'\<lparr>st_inputs := map clearScript (st_inputs t')\<rparr> = t\<lparr>st_inputs := map clearScript (st_inputs t)\<rparr>"

section \<open>The address codec: lemmas\<close>

subsection \<open>Shifts and masks of 32-bit words as arithmetic\<close>

lemma msk_eq: "n < 32 \<Longrightarrow> js_shl 1 n - 1 = (mask n :: int32)"
  by (simp add: js_shl_def mask_eq_exp_minus_1)

lemma value_check: 
  assumes "frm < 32"
  shows "(js_sar (ucast (v::byte)) frm = 0) = (unat v < 2 ^ frm)"
proof -
  have "js_sar (ucast v) frm = (ucast (drop_bit frm v) :: int32)"
    using assms by (intro bit_word_eqI) (auto simp add: js_sar_def bit_simps dest: bit_imp_le_length)
  moreover have "((ucast (drop_bit frm v) :: int32) = 0) = (drop_bit frm v = 0)"
  proof -
    have "unat (drop_bit frm v) < 2 ^ 8"
      using unsigned_less[of "drop_bit frm v"] by simp
    then have "unat (ucast (drop_bit frm v) :: int32) = unat (drop_bit frm v)"
      by (simp add: unsigned_ucast_eq take_bit_nat_eq_self)
    then show ?thesis
      using unsigned_eq_0_iff[where 'a = nat and w = "drop_bit frm v"]
        unsigned_eq_0_iff[where 'a = nat and w = "ucast (drop_bit frm v) :: int32"]
      by simp
  qed
  moreover have "(drop_bit frm v = 0) = (take_bit frm v = v)"
    by (simp add: take_bit_eq_self_iff_drop_bit_eq_0)
  moreover have "(take_bit frm v = v) = (unat v < 2 ^ frm)"
    by (metis  take_bit_nat_eq_self_iff unsigned_take_bit_eq word_eq_iff_unsigned)
  ultimately show ?thesis by simp
qed

lemma emit_value:
  assumes "0 < to" "to \<le> 8" "to \<le> bits" "bits \<le> 32"
  shows "unat (ucast (js_sar acc (bits - to) AND (js_shl 1 to - 1)) :: byte)
         = (unat acc div 2 ^ (bits - to)) mod 2 ^ to"
proof -
  have k: "bits - to < 32" "to < 32" using assms by auto
  have "unat (ucast (js_sar acc (bits - to) AND (js_shl 1 to - 1)) :: byte) = take_bit to (drop_bit (bits - to) (unat acc))"
    unfolding msk_eq[OF k(2)] using assms k
    by (intro bit_eqI) (auto simp add: js_sar_def bit_simps)
  then show ?thesis by (simp add: take_bit_eq_mod drop_bit_eq_div)
qed

lemma acc_shift_value:
  assumes "unat v < 2 ^ frm" "frm \<le> 8" "bits + frm \<le> 32"
  shows "unat (js_shl acc frm OR ucast (v::byte)) mod 2 ^ (bits + frm) = (unat acc mod 2 ^ bits) * 2 ^ frm + unat v"
proof -
  have v: "take_bit frm (unat v) = unat v" using assms by (simp add: take_bit_nat_eq_self)
  then have "take_bit frm v = v"
    by (metis unsigned_take_bit_eq word_eq_iff_unsigned)
  then have vb: "\<And>n. bit v n \<Longrightarrow> n < frm"
    by (metis bit_take_bit_iff)
  have d: "push_bit frm (take_bit bits (unat acc)) + take_bit frm (unat v)
       = push_bit frm (take_bit bits (unat acc)) OR take_bit frm (unat v)"
    by (rule disjunctive_add) (auto simp add: bit_simps)
  have "take_bit (bits + frm) (unat (js_shl acc frm OR ucast v))
      = push_bit frm (take_bit bits (unat acc)) OR take_bit frm (unat v)"
    using assms
    by (intro bit_eqI) (auto simp add: js_shl_def bit_simps dest: vb)
  then show ?thesis
    using d v by (simp add: take_bit_eq_mod push_bit_eq_mult)
qed

lemma pad_value:
  assumes "bits < to" "to \<le> 8"
  shows "unat (ucast (js_shl acc (to - bits) AND (js_shl 1 to - 1)) :: byte) = (unat acc mod 2 ^ bits) * 2 ^ (to - bits)"
proof -
  have k: "to < 32" using assms by simp
  have "unat (ucast (js_shl acc (to - bits) AND (js_shl 1 to - 1)) :: byte) = push_bit (to - bits) (take_bit bits (unat acc))"
    unfolding msk_eq[OF k] using assms
    by (intro bit_eqI) (auto simp add: js_shl_def bit_simps)
  then show ?thesis by (simp add: take_bit_eq_mod push_bit_eq_mult)
qed

lemma pad_zero_iff:
  assumes "bits < to" "to \<le> 8"
  shows "(js_shl acc (to - bits) AND (js_shl 1 to - 1) = 0) = (unat acc mod 2 ^ bits = 0)"
proof -
  have k: "to < 32" using assms by simp
  have "js_shl acc (to - bits) AND (js_shl 1 to - 1) = push_bit (to - bits) (take_bit bits acc)"
    unfolding msk_eq[OF k] using assms
    by (intro bit_word_eqI) (auto simp add: js_shl_def bit_simps)
  moreover have "unat (push_bit (to - bits) (take_bit bits acc)) = push_bit (to - bits) (take_bit bits (unat acc))"
    using assms
    by (intro bit_eqI) (auto simp add: bit_simps)
  ultimately have "unat (js_shl acc (to - bits) AND (js_shl 1 to - 1)) = (unat acc mod 2 ^ bits) * 2 ^ (to - bits)"
    by (simp add: take_bit_eq_mod push_bit_eq_mult)
  then show ?thesis
    using unsigned_eq_0_iff[where 'a = nat and w = "js_shl acc (to - bits) AND (js_shl 1 to - 1)"]
    by simp
qed

lemma xor_top:
  fixes x :: int32
  assumes "bit x k" "31 \<le> k"
  shows "x XOR push_bit k 1 = take_bit k x"
  using assms by (intro bit_word_eqI) (auto simp add: bit_simps)

lemma c1_unsigned: "(if sint (x::int32) < 0 then sint (x XOR js_shl 1 31) + sint (js_shl 1 30 :: int32) * 2 else sint x) = uint x"
proof -
  have a: "sint (js_shl 1 30 :: int32) = 2 ^ 30" by (simp add: js_shl_def)
  show ?thesis
  proof (cases "bit x 31")
    case True
    have "js_shl 1 31 = (push_bit 31 1 :: int32)" by (simp add: js_shl_def)
    then have "x XOR js_shl 1 31 = take_bit 31 x" using True xor_top[of x 31]
      by simp
    moreover have "sint (take_bit 31 x) = take_bit 31 (uint x)"
      by (intro bit_eqI) (auto simp add: bit_simps)
    moreover have "uint x = take_bit 31 (uint x) + 2 ^ 31"
      using take_bit_Suc_from_most[of 31 "uint x"] True
      by (simp add: bit_simps take_bit_int_eq_self uint_bounded [where ?w = x, simplified])
    moreover have "sint x < 0" using True bit_last_iff[of x] by simp
    ultimately show ?thesis using a by simp
  next
    case False
    have nb: "n < 31" if "bit x n" for n
    proof -
      have "n < 32" using bit_imp_le_length[OF that] by simp
      with False that show ?thesis by (cases "n = 31") auto
    qed
    have "sint x = uint x"
      by (intro bit_eqI) (auto simp add: bit_simps min_def dest: nb)
    moreover have "\<not> sint x < 0" using False bit_last_iff[of x] by simp
    ultimately show ?thesis by simp
  qed
qed

subsection \<open>convertBits keeps the number that the digits write\<close>

lemma num_of_snoc: "num_of w (ds @ [d]) = num_of w ds * 2 ^ w + unat d"
  by (induction ds) (simp_all add: power_add algebra_simps)

lemma num_of_less:
  "\<forall>d\<in>set ds. unat d < 2 ^ w \<Longrightarrow> num_of w ds < 2 ^ (w * length ds)"
proof (induction ds)
  case Nil
  then show ?case by simp
next
  case (Cons d ds)
  then have a: "unat d + 1 \<le> 2 ^ w" and b: "num_of w ds < 2 ^ (w * length ds)" by auto
  have "unat d * 2 ^ (w * length ds) + num_of w ds < (unat d + 1) * 2 ^ (w * length ds)"
    using b by (simp add: algebra_simps)
  also have "\<dots> \<le> 2 ^ w * 2 ^ (w * length ds)"
    using a by (rule mult_le_mono1)
  finally show ?case by (simp add: power_add)
qed

lemma num_of_inj:
  assumes "length xs = length ys"
    and "\<forall>d\<in>set xs. unat d < 2 ^ w" "\<forall>d\<in>set ys. unat d < 2 ^ w"
    and "num_of w xs = num_of w ys"
  shows "xs = ys"
  using assms
proof (induction xs ys rule: list_induct2)
  case Nil
  then show ?case by simp
next
  case (Cons x xs y ys)
  let ?B = "2 ^ (w * length xs) :: nat"
  have bx: "num_of w xs < ?B" using Cons.prems num_of_less[of xs w] by simp
  have by': "num_of w ys < ?B" using Cons.prems Cons.hyps num_of_less[of ys w] by simp
  have e: "unat x * ?B + num_of w xs = unat y * ?B + num_of w ys"
    using Cons.prems Cons.hyps by simp
  have "(unat x * ?B + num_of w xs) div ?B = unat x" using bx by simp
  moreover have "(unat y * ?B + num_of w ys) div ?B = unat y" using by' by simp
  ultimately have xy: "unat x = unat y" using e by simp
  then have "num_of w xs = num_of w ys" using e by simp
  then have "xs = ys" using Cons by simp
  moreover have "x = y" using xy by (simp add: word_eq_iff_unsigned[where 'a = nat])
  ultimately show ?case by simp
qed

lemma emit_inv:
  assumes "0 < to" "to \<le> 8" "bits \<le> 32"
  shows "case convertBits_emit to (js_shl 1 to - 1) acc bits out of (b', out') \<Rightarrow>
           b' < to \<and> length out' * to + b' = length out * to + bits \<and>
           num_of to out' * 2 ^ b' + unat acc mod 2 ^ b' = num_of to out * 2 ^ bits + unat acc mod 2 ^ bits \<and>
           (\<exists>new. out' = out @ new \<and> (\<forall>d\<in>set new. unat d < 2 ^ to))"
  using assms
proof (induction to "js_shl 1 to - 1" acc bits out rule: convertBits_emit.induct)
  case (1 to acc bits out)
  show ?case
  proof (cases "to \<le> bits")
    case False
    then show ?thesis using 1 by (simp add: convertBits_emit.simps)
  next
    case True
    let ?v = "ucast (js_sar acc (bits - to) AND (js_shl 1 to - 1)) :: byte"
    have v: "unat ?v = (unat acc div 2 ^ (bits - to)) mod 2 ^ to"
      using emit_value[of to bits acc] 1 True by simp
    have m: "unat acc mod 2 ^ bits = 2 ^ (bits - to) * (unat acc div 2 ^ (bits - to) mod 2 ^ to) + unat acc mod 2 ^ (bits - to)"
      using mod_mult2_eq[of "unat acc" "2 ^ (bits - to)" "2 ^ to"] True
      by (simp flip: power_add)
    have p: "(2::nat) ^ bits = 2 ^ to * 2 ^ (bits - to)"
      using True by (simp flip: power_add)
    have ih: "case convertBits_emit to (js_shl 1 to - 1) acc (bits - to) (out @ [?v]) of (b', out') \<Rightarrow>
           b' < to \<and> length out' * to + b' = length (out @ [?v]) * to + (bits - to) \<and>
           num_of to out' * 2 ^ b' + unat acc mod 2 ^ b' = num_of to (out @ [?v]) * 2 ^ (bits - to) + unat acc mod 2 ^ (bits - to) \<and>
           (\<exists>new. out' = (out @ [?v]) @ new \<and> (\<forall>d\<in>set new. unat d < 2 ^ to))"
      using 1 True by simp
    have vlt: "unat ?v < 2 ^ to" using v by simp
    obtain b' out' where r: "convertBits_emit to (js_shl 1 to - 1) acc (bits - to) (out @ [?v]) = (b', out')"
      by fastforce
    from ih r have i1: "b' < to"
      and i2: "length out' * to + b' = length (out @ [?v]) * to + (bits - to)"
      and i3: "num_of to out' * 2 ^ b' + unat acc mod 2 ^ b' = num_of to (out @ [?v]) * 2 ^ (bits - to) + unat acc mod 2 ^ (bits - to)"
      and i4: "\<exists>new. out' = (out @ [?v]) @ new \<and> (\<forall>d\<in>set new. unat d < 2 ^ to)"
      by simp_all
    have res: "convertBits_emit to (js_shl 1 to - 1) acc bits out = (b', out')"
      using True 1(2) r by (subst convertBits_emit.simps) simp
    have c2: "length out' * to + b' = length out * to + bits"
      using i2 True by (simp add: algebra_simps)
    have "num_of to (out @ [?v]) * 2 ^ (bits - to) + unat acc mod 2 ^ (bits - to)
        = num_of to out * (2 ^ to * 2 ^ (bits - to)) + (2 ^ (bits - to) * unat ?v + unat acc mod 2 ^ (bits - to))"
      by (simp add: num_of_snoc algebra_simps)
    also have "\<dots> = num_of to out * 2 ^ bits + unat acc mod 2 ^ bits"
      using m p v by simp
    finally have c3: "num_of to out' * 2 ^ b' + unat acc mod 2 ^ b' = num_of to out * 2 ^ bits + unat acc mod 2 ^ bits"
      using i3 by simp
    from i4 obtain new where n: "out' = (out @ [?v]) @ new" "\<forall>d\<in>set new. unat d < 2 ^ to" by blast
    have c4: "\<exists>new. out' = out @ new \<and> (\<forall>d\<in>set new. unat d < 2 ^ to)"
    proof (intro exI conjI)
      show "out' = out @ (?v # new)" using n by simp
      show "\<forall>d\<in>set (?v # new). unat d < 2 ^ to" using n vlt by simp
    qed
    show ?thesis using res i1 c2 c3 c4 by simp
  qed
qed


lemma loop_inv:
  assumes "0 < to" "to \<le> 8" "frm \<le> 8" "bits < to"
    and "\<forall>v\<in>set data. unat v < 2 ^ frm" "\<forall>d\<in>set out. unat d < 2 ^ to"
  shows "\<exists>acc' bits' out'.
           convertBits_loop frm to (js_shl 1 to - 1) data acc bits out = Inr (acc', bits', out') \<and>
           bits' < to \<and>
           length out' * to + bits' = length out * to + bits + frm * length data \<and>
           num_of to out' * 2 ^ bits' + unat acc' mod 2 ^ bits'
             = (num_of to out * 2 ^ bits + unat acc mod 2 ^ bits) * 2 ^ (frm * length data)
               + num_of frm data \<and>
           (\<forall>d\<in>set out'. unat d < 2 ^ to)"
  using assms
proof (induction data arbitrary: acc bits out)
  case Nil
  then show ?case by simp
next
  case (Cons v rest)
  let ?m = "js_shl 1 to - 1 :: int32"
  let ?acc1 = "js_shl acc frm OR ucast v"
  have vlt: "unat v < 2 ^ frm" using Cons.prems by simp
  have chk: "js_sar (ucast v) frm = 0"
    using value_check[of frm v] vlt Cons.prems by simp
  obtain b1 out1 where e: "convertBits_emit to ?m ?acc1 (bits + frm) out = (b1, out1)"
    by fastforce
  have "bits + frm \<le> 32" using Cons.prems by simp
  from emit_inv[OF Cons.prems(1) Cons.prems(2) this, where acc = ?acc1 and out = out] e
  have e1: "b1 < to"
    and e2: "length out1 * to + b1 = length out * to + (bits + frm)"
    and e3: "num_of to out1 * 2 ^ b1 + unat ?acc1 mod 2 ^ b1
             = num_of to out * 2 ^ (bits + frm) + unat ?acc1 mod 2 ^ (bits + frm)"
    and e4: "\<exists>new. out1 = out @ new \<and> (\<forall>d\<in>set new. unat d < 2 ^ to)"
    by simp_all
  have o1: "\<forall>d\<in>set out1. unat d < 2 ^ to" using e4 Cons.prems by auto
  have w2: "unat ?acc1 mod 2 ^ (bits + frm) = (unat acc mod 2 ^ bits) * 2 ^ frm + unat v"
    using acc_shift_value[of v frm bits acc] vlt Cons.prems by simp
  have restlt: "\<forall>v\<in>set rest. unat v < 2 ^ frm" using Cons.prems by simp
  from Cons.IH[OF Cons.prems(1) Cons.prems(2) Cons.prems(3) e1 restlt o1, where acc = ?acc1]
  obtain acc' bits' out' where
    r: "convertBits_loop frm to ?m rest ?acc1 b1 out1 = Inr (acc', bits', out')"
    and r1: "bits' < to"
    and r2: "length out' * to + bits' = length out1 * to + b1 + frm * length rest"
    and r3: "num_of to out' * 2 ^ bits' + unat acc' mod 2 ^ bits'
             = (num_of to out1 * 2 ^ b1 + unat ?acc1 mod 2 ^ b1) * 2 ^ (frm * length rest)
               + num_of frm rest"
    and r4: "\<forall>d\<in>set out'. unat d < 2 ^ to"
    by blast
  have res: "convertBits_loop frm to ?m (v # rest) acc bits out = Inr (acc', bits', out')"
    using chk Cons.prems(1) e r by simp
  have c2: "length out' * to + bits' = length out * to + bits + frm * length (v # rest)"
    using r2 e2 by simp
  have "(num_of to out1 * 2 ^ b1 + unat ?acc1 mod 2 ^ b1) * 2 ^ (frm * length rest) + num_of frm rest
      = ((num_of to out * 2 ^ bits + unat acc mod 2 ^ bits) * 2 ^ frm + unat v) * 2 ^ (frm * length rest)
        + num_of frm rest"
    using e3 w2 by (simp add: power_add algebra_simps)
  also have "\<dots> = (num_of to out * 2 ^ bits + unat acc mod 2 ^ bits) * 2 ^ (frm * length (v # rest))
        + num_of frm (v # rest)"
    by (simp add: power_add algebra_simps)
  finally have c3: "num_of to out' * 2 ^ bits' + unat acc' mod 2 ^ bits'
             = (num_of to out * 2 ^ bits + unat acc mod 2 ^ bits) * 2 ^ (frm * length (v # rest))
               + num_of frm (v # rest)"
    using r3 by simp
  show ?case using res r1 c2 c3 r4 by blast
qed

lemma fit_exact: "length xs = n \<Longrightarrow> fit n xs = xs"
  by (simp add: fit_def)

lemma byte_lt: "unat (d::byte) < 2 ^ 8"
  using unsigned_less[of d] by simp

lemma convertBits_8_5:
  "\<exists>syms pad. convertBits data 8 5 False = Inr syms \<and> (\<forall>s\<in>set syms. unat s < 2 ^ 5) \<and>
      length syms * 5 = 8 * length data + pad \<and> pad < 5 \<and>
      num_of 5 syms = num_of 8 data * 2 ^ pad"
proof -
  let ?m = "js_shl 1 5 - 1 :: int32"
  have "\<forall>v\<in>set data. unat v < 2 ^ 8" using byte_lt by simp
  from loop_inv[where to = 5 and frm = 8 and bits = 0 and data = data and out = "[]" and acc = 0, OF _ _ _ _ this]
  obtain acc' bits' out' where
    r: "convertBits_loop 8 5 ?m data 0 0 [] = Inr (acc', bits', out')"
    and r1: "bits' < 5"
    and r2: "length out' * 5 + bits' = 8 * length data"
    and r3: "num_of 5 out' * 2 ^ bits' + unat acc' mod 2 ^ bits' = num_of 8 data"
    and r4: "\<forall>d\<in>set out'. unat d < 2 ^ 5"
    by auto
  show ?thesis
  proof (cases "0 < bits'")
    case False
    then have b0: "bits' = 0" by simp
    have len: "(length data * 8 + 5 - 1) div 5 = length out'" using r2 b0 by simp
    have "convertBits data 8 5 False = Inr out'"
      using r b0 len by (simp add: convertBits_def fit_exact)
    moreover have "length out' * 5 = 8 * length data + 0" "num_of 5 out' = num_of 8 data * 2 ^ 0"
      using r2 r3 b0 by simp_all
    ultimately show ?thesis using r4 by (intro exI[of _ out'] exI[of _ 0]) simp
  next
    case True
    let ?l = "ucast (js_shl acc' (5 - bits') AND ?m) :: byte"
    have l: "unat ?l = (unat acc' mod 2 ^ bits') * 2 ^ (5 - bits')"
      using pad_value[of bits' 5 acc'] r1 by simp
    have "unat acc' mod 2 ^ bits' < 2 ^ bits'" by simp
    then have "(unat acc' mod 2 ^ bits') * 2 ^ (5 - bits') < 2 ^ bits' * 2 ^ (5 - bits')"
      by simp
    also have "\<dots> = 2 ^ 5" using r1 by (simp flip: power_add)
    finally have llt: "unat ?l < 2 ^ 5" using l by simp
    have len: "(length data * 8 + 5 - 1) div 5 = length (out' @ [?l])" using r2 r1 True by simp
    have c: "convertBits data 8 5 False = Inr (out' @ [?l])"
      using r True fit_exact[OF len[symmetric]] by (simp add: convertBits_def Let_def)
    have p: "(2::nat) ^ 5 = 2 ^ bits' * 2 ^ (5 - bits')" using r1 by (simp flip: power_add)
    have "num_of 5 (out' @ [?l]) = num_of 5 out' * 2 ^ 5 + (unat acc' mod 2 ^ bits') * 2 ^ (5 - bits')"
      using l by (simp add: num_of_snoc)
    also have "\<dots> = (num_of 5 out' * 2 ^ bits' + unat acc' mod 2 ^ bits') * 2 ^ (5 - bits')"
      unfolding p by (simp add: algebra_simps)
    finally have n: "num_of 5 (out' @ [?l]) = num_of 8 data * 2 ^ (5 - bits')" using r3 by simp
    have ln: "length (out' @ [?l]) * 5 = 8 * length data + (5 - bits')" using r2 r1 by simp
    have "5 - bits' < 5" using True by simp
    with c n ln r4 llt show ?thesis
      by (intro exI[of _ "out' @ [?l]"] exI[of _ "5 - bits'"]) simp
  qed
qed

lemma convertBits_5_8:
  assumes "\<forall>s\<in>set syms. unat s < 2 ^ 5"
    and "length syms * 5 = 8 * length data + pad" "pad < 5"
    and "num_of 5 syms = num_of 8 data * 2 ^ pad"
  shows "convertBits syms 5 8 True = Inr data"
proof -
  let ?m = "js_shl 1 8 - 1 :: int32"
  from loop_inv[where to = 8 and frm = 5 and bits = 0 and data = syms and out = "[]" and acc = 0, OF _ _ _ _ assms(1)]
  obtain acc' bits' out' where
    r: "convertBits_loop 5 8 ?m syms 0 0 [] = Inr (acc', bits', out')"
    and r1: "bits' < 8"
    and r2: "length out' * 8 + bits' = 5 * length syms"
    and r3: "num_of 8 out' * 2 ^ bits' + unat acc' mod 2 ^ bits' = num_of 5 syms"
    by auto
  have q: "length out' * 8 + bits' = length data * 8 + pad"
    using r2 assms(2) by simp
  then have "(length out' * 8 + bits') mod 8 = (length data * 8 + pad) mod 8"
    by simp
  then have bp: "bits' = pad" using r1 assms(3) by simp
  then have lo: "length out' = length data" using q by simp
  let ?r = "unat acc' mod 2 ^ pad"
  have e: "num_of 8 out' * 2 ^ pad + ?r = num_of 8 data * 2 ^ pad"
    using r3 assms(4) bp by simp
  have "(num_of 8 out' * 2 ^ pad + ?r) mod 2 ^ pad = ?r" by simp
  moreover have "(num_of 8 data * 2 ^ pad) mod 2 ^ pad = 0" by simp
  ultimately have r0: "?r = 0" using e by simp
  then have "num_of 8 out' = num_of 8 data" using e by simp
  then have od: "out' = data"
    using num_of_inj[of out' data 8] lo byte_lt by simp
  have chk: "js_shl acc' (8 - bits') AND ?m = 0"
    using pad_zero_iff[of bits' 8 acc'] r1 r0 bp by simp
  have len: "(length syms * 5) div 8 = length data" using assms(2,3) by simp
  show ?thesis
    using r chk bp assms(3) od len by (simp add: convertBits_def fit_exact)
qed

lemma convertBits_roundtrip:
  "\<exists>syms. convertBits data 8 5 False = Inr syms \<and> (\<forall>s\<in>set syms. unat s < 32) \<and>
      convertBits syms 5 8 True = Inr data"
proof -
  from convertBits_8_5[of data] obtain syms pad where
    a: "convertBits data 8 5 False = Inr syms" "\<forall>s\<in>set syms. unat s < 2 ^ 5"
      "length syms * 5 = 8 * length data + pad" "pad < 5"
      "num_of 5 syms = num_of 8 data * 2 ^ pad"
    by blast
  from convertBits_5_8[OF a(2-5)] a(1,2) show ?thesis by auto
qed

subsection \<open>The checksum of an encoded address verifies\<close>

lemma polymod_gen_split:
  "polymod_gen c is (x0, x1) = pxor (x0, x1) (polymod_gen c is (0, 0))"
proof (induction "is" arbitrary: x0 x1)
  case Nil
  then show ?case by (simp add: pxor_def)
next
  case (Cons i "is")
  show ?case
    using Cons[of "x0 XOR GENERATOR1 ! i" "x1 XOR GENERATOR2 ! i"] Cons[of x0 x1]
      Cons[of "GENERATOR1 ! i" "GENERATOR2 ! i"]
    by (simp add: pxor_def xor.assoc)
qed

lemma seven_mask: "(0x07 :: int32) = mask 3" and low27_mask: "(0x07ffffff :: int32) = mask 27"
  by (simp_all add: mask_eq_exp_minus_1)

lemma step_lin:
  assumes "drop_bit 3 p0 = 0"
  shows "polymod_step (z0 XOR p0, z1 XOR p1) d
         = pxor (polymod_step (z0, z1) 0) (shift5 (p0, p1) d)"
proof -
  have c: "js_shr (z0 XOR p0) 3 = js_shr z0 3"
    using assms by (simp add: js_shr_def)
  have a0: "js_shl ((z0 XOR p0) AND 0x07) 5 OR js_shr (z1 XOR p1) 27
          = (js_shl (z0 AND 0x07) 5 OR js_shr z1 27) XOR (js_shl (p0 AND 0x07) 5 OR js_shr p1 27)"
    unfolding seven_mask by (intro bit_word_eqI) (auto simp add: js_shl_def js_shr_def bit_simps dest: bit_imp_le_length)
  have a1: "js_shl ((z1 XOR p1) AND 0x07ffffff) 5 XOR ucast d
          = (js_shl (z1 AND 0x07ffffff) 5 XOR ucast (0::byte)) XOR (js_shl (p1 AND 0x07ffffff) 5 XOR ucast d)"
    unfolding low27_mask by (intro bit_word_eqI) (auto simp add: js_shl_def bit_simps)
  show ?thesis
    unfolding polymod_step_def
    apply (simp only: prod.case Let_def c a0 a1)
    apply (subst polymod_gen_split)
    apply (subst (2) polymod_gen_split)
    apply (simp add: pxor_def shift5_def xor.assoc xor.commute xor.left_commute)
    done
qed


lemma shift5_pair_of:
  assumes "take_bit 35 n = n" "unat d < 32"
  shows "shift5 (pair_of n) d = pair_of (n * 32 + uint d)"
proof -
  have nb: "m < 35" if "bit n m" for m
    using assms(1) that by (metis bit_take_bit_iff)
  have "take_bit 5 (unat d) = unat d" using assms(2) by (simp add: take_bit_nat_eq_self)
  then have td: "take_bit 5 d = d"
    by (metis unsigned_take_bit_eq word_eq_iff_unsigned)
  have db: "m < 5" if "bit d m" for m
    using td that by (metis bit_take_bit_iff)
  have "take_bit 5 (uint d) = uint d"
    using td by (metis unsigned_take_bit_eq)
  then have e: "n * 32 + uint d = concat_bit 5 (uint d) n"
    by (simp add: concat_bit_eq push_bit_eq_mult)
  have a: "js_shl (word_of_int (drop_bit 32 n) AND mask 3) 5 OR js_shr (word_of_int n) 27
         = (word_of_int (drop_bit 32 (concat_bit 5 (uint d) n)) :: int32)"
    by (intro bit_word_eqI) (auto simp add: js_shl_def js_shr_def bit_simps dest: nb db bit_imp_le_length)
  have b: "js_shl (word_of_int n AND mask 27) 5 XOR ucast d
         = (word_of_int (concat_bit 5 (uint d) n) :: int32)"
    by (intro bit_word_eqI) (auto simp add: js_shl_def js_shr_def bit_simps dest: nb db bit_imp_le_length)
  show ?thesis
    unfolding shift5_def pair_of_def e fst_conv snd_conv seven_mask low27_mask a b ..
qed

lemma pair_of_small: 
  assumes "take_bit 35 n = n"
  shows "drop_bit 3 (fst (pair_of n)) = 0"
proof -
  have nb: "m < 35" if "bit n m" for m
    using assms(1) that by (metis bit_take_bit_iff)
  show ?thesis
    unfolding pair_of_def fst_conv
    by (intro bit_word_eqI) (auto simp add: bit_simps dest: nb)
qed

lemma fold_digits:
  assumes "\<forall>d\<in>set ds. unat d < 32" "length ds \<le> 8"
  shows "foldl polymod_step s ds
         = pxor (foldl polymod_step s (replicate (length ds) 0)) (pair_of (int (num_of 5 ds)))"
  using assms
proof (induction ds rule: rev_induct)
  case Nil
  show ?case by (cases s) (simp add: pxor_def pair_of_def)
next
  case (snoc d ds)
  let ?k = "length ds"
  let ?N = "int (num_of 5 ds)"
  obtain z0 z1 where Z: "foldl polymod_step s (replicate ?k 0) = (z0, z1)" by fastforce
  obtain p0 p1 where P: "pair_of ?N = (p0, p1)" by fastforce
  have ih: "foldl polymod_step s ds = (z0 XOR p0, z1 XOR p1)"
    using snoc Z P by (simp add: pxor_def)
  have "num_of 5 ds < 2 ^ (5 * ?k)" using num_of_less[of ds 5] snoc.prems by simp
  also have "\<dots> \<le> 2 ^ 35" using snoc.prems by (intro power_increasing) simp_all
  finally have "?N < 2 ^ 35" by simp
  then have tb: "take_bit 35 ?N = ?N" by (simp add: take_bit_int_eq_self)
  have sm: "drop_bit 3 p0 = 0" using pair_of_small[OF tb] P by simp
  have dl: "unat d < 32" using snoc.prems by simp
  have "foldl polymod_step s (ds @ [d]) = polymod_step (z0 XOR p0, z1 XOR p1) d"
    using ih by simp
  also have "\<dots> = pxor (polymod_step (z0, z1) 0) (shift5 (p0, p1) d)"
    by (rule step_lin[OF sm])
  also have "polymod_step (z0, z1) 0 = foldl polymod_step s (replicate (length (ds @ [d])) 0)"
  proof -
    have rs: "replicate (length (ds @ [d])) (0::byte) = replicate ?k 0 @ [0]"
      by (simp add: replicate_append_same)
    show ?thesis unfolding rs using Z by simp
  qed
  also have "shift5 (p0, p1) d = pair_of (int (num_of 5 (ds @ [d])))"
    using shift5_pair_of[OF tb dl] P by (simp add: num_of_snoc)
  finally show ?case .
qed

lemma cta_loop_num:
  "int (num_of 5 (rev (checksumToArray_loop k C))) = C mod 32 ^ k"
proof (induction k arbitrary: C)
  case 0
  then show ?case by simp
next
  case (Suc k)
  have "0 \<le> C mod 32" "C mod 32 < 256"
    using pos_mod_bound[of 32 C] by simp_all
  then have w: "int (unat (word_of_int (C mod 32) :: byte)) = C mod 32"
    by (simp add: unsigned_of_int take_bit_int_eq_self)
  have "C mod (32 * 32 ^ k) = 32 * (C div 32 mod 32 ^ k) + C mod 32"
    by (rule zmod_zmult2_eq) simp
  then show ?case
    using Suc[of "C div 32"] w by (simp add: num_of_snoc)
qed

lemma cta_loop_length: "length (checksumToArray_loop k C) = k"
  by (induction k arbitrary: C) simp_all

lemma cta_loop_small: "\<forall>d\<in>set (checksumToArray_loop k C). unat d < 32"
proof (induction k arbitrary: C)
  case 0
  then show ?case by simp
next
  case (Suc k)
  have "0 \<le> C mod 32" "C mod 32 < 32" "C mod 32 < 256"
    using pos_mod_bound[of 32 C] by simp_all
  then have "uint (word_of_int (C mod 32) :: byte) < 32"
    by (simp add: unsigned_of_int take_bit_int_eq_self)
  then have "unat (word_of_int (C mod 32) :: byte) < 32"
    using unat_eq_nat_uint[of "word_of_int (C mod 32) :: byte"] by linarith
  then show ?case using Suc[of "C div 32"] by simp
qed

lemma checksumToArray_num:
  assumes "0 \<le> C" "C < 2 ^ 40"
  shows "int (num_of 5 (checksumToArray C)) = C"
proof -
  have "(32::int) ^ 8 = 2 ^ 40" by simp
  then have "C mod 32 ^ 8 = C" using assms by simp
  then show ?thesis
    unfolding checksumToArray_def using cta_loop_num[of 8 C] by simp
qed

lemma sint_eq_uint_32:
  fixes x :: int32
  assumes "\<not> bit x 31"
  shows "sint x = uint x"
proof -
  have nb: "n < 31" if "bit x n" for n
  proof -
    have "n < 32" using bit_imp_le_length[OF that] by simp
    with assms that show ?thesis by (cases "n = 31") auto
  qed
  show ?thesis
    by (intro bit_eqI) (auto simp add: bit_simps min_def dest: nb)
qed

lemma gen1_small: "i < 5 \<Longrightarrow> take_bit 8 (GENERATOR1 ! i) = GENERATOR1 ! i"
proof -
  assume "i < 5"
  then have "i = 0 \<or> i = 1 \<or> i = 2 \<or> i = 3 \<or> i = 4" by arith
  then show ?thesis by (elim disjE) (simp_all add: GENERATOR1_def)
qed

lemma gen_small:
  "take_bit 8 x0 = x0 \<Longrightarrow> \<forall>i\<in>set is. i < 5 \<Longrightarrow>
     take_bit 8 (fst (polymod_gen c is (x0, x1))) = fst (polymod_gen c is (x0, x1))"
proof (induction "is" arbitrary: x0 x1)
  case Nil
  then show ?case by simp
next
  case (Cons i "is")
  have "take_bit 8 (x0 XOR GENERATOR1 ! i) = x0 XOR GENERATOR1 ! i"
    using Cons.prems gen1_small[of i] by simp
  then show ?case using Cons by simp
qed

lemma step_small: "take_bit 8 (fst (polymod_step s d)) = fst (polymod_step s d)"
proof -
  obtain c0 c1 where s: "s = (c0, c1)" by fastforce
  have a: "take_bit 8 (js_shl (c0 AND 0x07) 5 OR js_shr c1 27) = js_shl (c0 AND 0x07) 5 OR js_shr c1 27"
    unfolding seven_mask
    by (intro bit_word_eqI) (auto simp add: js_shl_def js_shr_def bit_simps dest: bit_imp_le_length)
  have "\<forall>i\<in>set [0 ..< length GENERATOR1]. i < 5" by (simp add: GENERATOR1_def)
  from gen_small[OF a this] show ?thesis
    unfolding s polymod_step_def by (simp add: Let_def)
qed

lemma fold_small:
  "take_bit 8 (fst s) = fst s \<Longrightarrow>
     take_bit 8 (fst (foldl polymod_step s data)) = fst (foldl polymod_step s data)"
  by (induction data rule: rev_induct) (simp_all add: step_small)

lemma polymod_val:
  assumes "foldl polymod_step (0, 1) data = (c0, c1)"
  shows "polymod data = uint c0 * 2 ^ 32 + uint (c1 XOR 1)"
    and "uint c0 < 2 ^ 8"
proof -
  have t: "take_bit 8 c0 = c0" using fold_small[of "(0, 1)" data] assms by simp
  have nb: "m < 8" if "bit c0 m" for m
    using t that by (metis bit_take_bit_iff)
  then have "\<not> bit c0 31" by fastforce
  then have s0: "sint c0 = uint c0" by (rule sint_eq_uint_32)
  have a: "sint (js_shl 1 30 :: int32) = 2 ^ 30" by (simp add: js_shl_def)
  show "polymod data = uint c0 * 2 ^ 32 + uint (c1 XOR 1)"
    by (simp only: polymod_def assms prod.case Let_def c1_unsigned) (simp add: s0 a)
  have "uint c0 = take_bit 8 (uint c0)" using t by (metis unsigned_take_bit_eq)
  then show "uint c0 < 2 ^ 8" by (metis take_bit_int_less_exp)
qed

lemma len32: "LENGTH(32) = 32" by simp

lemma pair_of_val:
  assumes "uint c0 < 2 ^ 8"
  shows "pair_of (uint c0 * 2 ^ 32 + uint (x::int32)) = (c0, x)"
proof -
  have "uint x < 2 ^ 32" using uint_bounded[of x] by simp
  then have "(uint c0 * 2 ^ 32 + uint x) div 2 ^ 32 = uint c0" by simp
  then have a: "(word_of_int (drop_bit 32 (uint c0 * 2 ^ 32 + uint x)) :: int32) = c0"
    by (simp add: drop_bit_eq_div)
  have "take_bit 32 (uint c0 * 2 ^ 32 + uint x) = take_bit 32 (uint x)"
    by (simp add: take_bit_eq_mod)
  then have "(word_of_int (uint c0 * 2 ^ 32 + uint x) :: int32) = word_of_int (uint x)"
    by (simp only: word_of_int_eq_iff len32) 
  then have b: "(word_of_int (uint c0 * 2 ^ 32 + uint x) :: int32) = x" by simp
  show ?thesis unfolding pair_of_def a b ..
qed

lemma polymod_checksum:
  "polymod (xs @ checksumToArray (polymod (xs @ replicate 8 0))) = 0"
proof -
  let ?s = "foldl polymod_step (0, 1) xs"
  obtain z0 z1 where Z: "foldl polymod_step ?s (replicate 8 0) = (z0, z1)" by fastforce
  then have Z': "foldl polymod_step (0, 1) (xs @ replicate 8 0) = (z0, z1)" by simp
  let ?C = "polymod (xs @ replicate 8 0)"
  have C: "?C = uint z0 * 2 ^ 32 + uint (z1 XOR 1)" and z0: "uint z0 < 2 ^ 8"
    using polymod_val[OF Z'] by simp_all
  have "uint (z1 XOR 1) < 2 ^ 32" using uint_bounded[of "z1 XOR 1"] by simp
  then have Cb: "0 \<le> ?C" "?C < 2 ^ 40" using C z0 by simp_all
  let ?ds = "checksumToArray ?C"
  have n: "int (num_of 5 ?ds) = ?C" using checksumToArray_num[OF Cb] .
  have l: "length ?ds = 8" by (simp add: checksumToArray_def cta_loop_length)
  have sm: "\<forall>d\<in>set ?ds. unat d < 32" using cta_loop_small[of 8 ?C] by (simp add: checksumToArray_def)
  have "foldl polymod_step (0, 1) (xs @ ?ds) = foldl polymod_step ?s ?ds" by simp
  also have "\<dots> = pxor (z0, z1) (pair_of ?C)"
    using fold_digits[OF sm, of ?s] l Z n by simp
  also have "\<dots> = (0, 1)"
    unfolding C pair_of_val[OF z0] by (simp add: pxor_def) 
  finally have f: "foldl polymod_step (0, 1) (xs @ ?ds) = (0, 1)" .
  show ?thesis using polymod_val(1)[OF f] by simp
qed

subsection \<open>Strings and the alphabet\<close>

lemma charset_all: "\<forall>n\<in>set [0..<32]. charsetOk n"
  by code_simp

lemma charset_ok: "n < 32 \<Longrightarrow> charsetOk n"
  using charset_all by simp

lemma base32Encode_ok:
  "\<forall>v\<in>set xs. unat v < 32 \<Longrightarrow> base32Encode xs = Inr (map (\<lambda>v. CHARSET ! unat v) xs)"
  by (induction xs) simp_all

lemma base32Decode_encode:
  "\<forall>v\<in>set xs. unat v < 32 \<Longrightarrow> base32Decode (map (\<lambda>v. CHARSET ! unat v) xs) = Inr xs"
proof (induction xs)
  case Nil
  then show ?case by simp
next
  case (Cons v xs)
  then have "charsetOk (unat v)" using charset_ok by simp
  then have "map_of CHARSET_INVERSE_INDEX (CHARSET ! unat v) = Some v"
    by (simp add: charsetOk_def)
  then show ?case using Cons by simp
qed

lemma split_on_none: "sep \<notin> set s \<Longrightarrow> split_on sep s = [s]"
  by (induction s) auto

lemma split_on_one:
  "sep \<notin> set p \<Longrightarrow> sep \<notin> set s \<Longrightarrow> split_on sep (p @ sep # s) = [p, s]"
  by (induction p) (auto simp add: split_on_none)

lemma lower_valid: "validPrefix pre \<Longrightarrow> toLowerCase pre = pre"
  by (induction pre) (auto simp add: validPrefix_def toLowerCase_def lowerChar_def)

lemma lower_symbols:
  "\<forall>v\<in>set xs. unat v < 32 \<Longrightarrow>
     toLowerCase (map (\<lambda>v. CHARSET ! unat v) xs) = map (\<lambda>v. CHARSET ! unat v) xs"
  using charset_ok by (induction xs) (auto simp add: toLowerCase_def charsetOk_def)

lemma colon_symbols:
  "\<forall>v\<in>set xs. unat v < 32 \<Longrightarrow> CHR '':'' \<notin> set (map (\<lambda>v. CHARSET ! unat v) xs)"
proof
  assume a: "\<forall>v\<in>set xs. unat v < 32"
    and "CHR '':'' \<in> set (map (\<lambda>v. CHARSET ! unat v) xs)"
  then obtain v where v: "v \<in> set xs" "CHARSET ! unat v = CHR '':''" by auto
  then have "charsetOk (unat v)" using a charset_ok by simp
  then show False using v by (simp add: charsetOk_def)
qed

lemma roundtrip_aux:
  assumes "validPrefix pre"
  shows "\<exists>a. encodeKaspaAddress pl pre ver = Inr a \<and>
             decodeKaspaAddress a [pre] = Inr \<lparr>prefix = pre, version = ver, payload = pl\<rparr>"
proof -
  from convertBits_roundtrip[of "ver # pl"] obtain syms where
    e: "convertBits (ver # pl) 8 5 False = Inr syms"
    and sm: "\<forall>s\<in>set syms. unat s < 32"
    and d: "convertBits syms 5 8 True = Inr (ver # pl)"
    by blast
  let ?xs = "prefixToArray pre @ [0] @ syms"
  let ?ck = "checksumToArray (polymod (?xs @ replicate 8 0))"
  let ?full = "syms @ ?ck"
  let ?s = "map (\<lambda>v. CHARSET ! unat v) ?full"
  let ?a = "pre @ '':'' @ ?s"
  have lp: "toLowerCase pre = pre" using assms by (rule lower_valid)
  have ck: "\<forall>d\<in>set ?ck. unat d < 32" "length ?ck = 8"
    using cta_loop_small[of 8] by (simp_all add: checksumToArray_def cta_loop_length)
  have fl: "\<forall>v\<in>set ?full. unat v < 32" using sm ck by auto
  have enc: "encodeKaspaAddress pl pre ver = Inr ?a"
    using e base32Encode_ok[OF fl] lp by (simp add: encodeKaspaAddress_def Let_def)
  have la: "toLowerCase ?a = ?a"
    using lp lower_symbols[OF fl] by (simp add: toLowerCase_def lowerChar_def)
  have pc: "CHR '':'' \<notin> set pre" using assms by (auto simp add: validPrefix_def)
  have sp: "split_on (CHR '':'') ?a = [pre, ?s]"
    using split_on_one[OF pc colon_symbols[OF fl]] by simp
  have norm: "normalizeAddress ?a = Inr (pre, ?s)"
    unfolding normalizeAddress_def hasSingleCase_def la sp by simp
  have cs: "hasValidChecksum pre ?full"
    using polymod_checksum[of ?xs] by (simp add: hasValidChecksum_def)
  have tk: "take (length ?full - 8) ?full = syms" using ck by simp
  have dec: "decodeKaspaAddress ?a [pre] = Inr \<lparr>prefix = pre, version = ver, payload = pl\<rparr>"
    unfolding decodeKaspaAddress_def norm
    using lp base32Decode_encode[OF fl] cs tk d by simp
  show ?thesis using enc dec by blast
qed

subsection \<open>Separators and cases\<close>

lemma demo_decodes:
  "decodeKaspaAddress demoAddress [''kaspa'']
   = Inr \<lparr>prefix = ''kaspa'', version = 0, payload = replicate 32 1\<rparr>"
  by code_simp

lemma split_on_length: "length (split_on sep s) = Suc (length (filter (\<lambda>c. c = sep) s))"
  by (induction s) (auto split: list.splits)

lemma lowerChar_code:
  "(of_char (lowerChar c) :: nat) =
     (if 65 \<le> (of_char c :: nat) \<and> (of_char c :: nat) \<le> 90 then of_char c + 32 else of_char c)"
  by (simp add: lowerChar_def)

lemma lowerChar_colon: "(lowerChar c = CHR '':'') = (c = CHR '':'')"
proof -
  have "(lowerChar c = CHR '':'') = ((of_char (lowerChar c) :: nat) = of_char (CHR '':''))"
    by (simp only: of_char_eq_iff)
  also have "\<dots> = ((of_char c :: nat) = of_char (CHR '':''))"
    unfolding lowerChar_code by auto
  also have "\<dots> = (c = CHR '':'')"
    by (simp only: of_char_eq_iff)
  finally show ?thesis .
qed

lemma separators_lower: "separators (toLowerCase s) = separators s"
  by (induction s) (simp_all add: separators_def toLowerCase_def lowerChar_colon)

lemma normalize_format:
  assumes "hasSingleCase address" "separators address \<noteq> 1"
  shows "normalizeAddress address = Inl InvalidFormat"
proof -
  have "length (split_on (CHR '':'') (toLowerCase address)) \<noteq> 2"
    using assms(2) separators_lower[of address]
    by (simp add: split_on_length separators_def)
  then show ?thesis
    using assms(1) by (auto simp add: normalizeAddress_def split: list.splits)
qed

section \<open>The signing engine: lemmas\<close>

subsection \<open>The cached sub-hashes are the recomputed ones\<close>

lemma bindE_simps [simp]:
  "bindE (Inl e) f = Inl e" "bindE (Inr x) f = f x"
  by (simp_all add: bindE_def)

lemma thenC_simps [simp]:
  "thenC (Inl e, c) f = (Inl e, c)" "thenC (Inr x, c) f = f x c"
  by (simp_all add: thenC_def)

lemma hashed_simps [simp]:
  "hashed P (Inl e) = Inl e" "hashed P (Inr w) = Inr (finalize P w)"
  by (simp_all add: hashed_def)

lemma getPreviousOutputsHash_spec:
  assumes "cacheConsistent P tx cache"
  shows "fst (getPreviousOutputsHash P tx hashType cache) = spec_previousOutputsHash P tx hashType"
    and "cacheConsistent P tx (snd (getPreviousOutputsHash P tx hashType cache))"
  using assms
  by (auto simp add: getPreviousOutputsHash_def spec_previousOutputsHash_def cacheConsistent_def
        allOutpointsHash_def split: option.splits sum.splits)

lemma getSequencesHash_spec:
  assumes "cacheConsistent P tx cache"
  shows "fst (getSequencesHash P tx hashType cache) = spec_sequencesHash P tx hashType"
    and "cacheConsistent P tx (snd (getSequencesHash P tx hashType cache))"
  using assms
  by (auto simp add: getSequencesHash_def spec_sequencesHash_def cacheConsistent_def
        allSequencesHash_def split: option.splits sum.splits)

lemma getSigOpCountsHash_spec:
  assumes "cacheConsistent P tx cache"
  shows "fst (getSigOpCountsHash P tx hashType cache) = spec_sigOpCountsHash P tx hashType"
    and "cacheConsistent P tx (snd (getSigOpCountsHash P tx hashType cache))"
  using assms
  by (auto simp add: getSigOpCountsHash_def spec_sigOpCountsHash_def cacheConsistent_def
        allSigOpCountsHash_def split: option.splits sum.splits)

lemma getOutputsHash_spec:
  assumes "cacheConsistent P tx cache"
  shows "fst (getOutputsHash P tx inputIndex hashType cache) = spec_outputsHash P tx inputIndex hashType"
    and "cacheConsistent P tx (snd (getOutputsHash P tx inputIndex hashType cache))"
  using assms
  by (auto simp add: getOutputsHash_def spec_outputsHash_def cacheConsistent_def
        allOutputsHash_def split: option.splits sum.splits)

text \<open>One statement of the cached computation after another.\<close>

lemma thenC_step:
  assumes "fst r = m" "cacheConsistent P tx (snd r)"
    and "\<And>x c. cacheConsistent P tx c \<Longrightarrow>
            fst (f x c) = g x \<and> cacheConsistent P tx (snd (f x c))"
  shows "fst (thenC r f) = bindE m g \<and> cacheConsistent P tx (snd (thenC r f))"
proof (cases r)
  case (Pair a c)
  then show ?thesis using assms by (cases a) auto
qed

lemma calculateSigHash_spec:
  assumes "cacheConsistent P tx cache"
  shows "fst (calculateSigHash P tx hashType inputIndex cache) = spec_sigHash P tx hashType inputIndex
         \<and> cacheConsistent P tx (snd (calculateSigHash P tx hashType inputIndex cache))"
  unfolding calculateSigHash_def spec_sigHash_def Let_def
  apply (rule thenC_step[where P = P and tx = tx])
    apply simp
   apply (simp add: assms)
  apply (rule thenC_step[where P = P and tx = tx])
    apply (erule getPreviousOutputsHash_spec(1))
   apply (erule getPreviousOutputsHash_spec(2))
  apply (rule thenC_step[where P = P and tx = tx])
    apply (erule getSequencesHash_spec(1))
   apply (erule getSequencesHash_spec(2))
  apply (rule thenC_step[where P = P and tx = tx])
    apply (erule getSigOpCountsHash_spec(1))
   apply (erule getSigOpCountsHash_spec(2))
  apply (rule thenC_step[where P = P and tx = tx])
    apply simp
   apply simp
  apply (rule thenC_step[where P = P and tx = tx])
    apply (erule getOutputsHash_spec(1))
   apply (erule getOutputsHash_spec(2))
  apply (rule thenC_step[where P = P and tx = tx])
    apply simp
   apply simp
  apply simp
  done

lemma emptyCache_consistent: "cacheConsistent P tx emptyCache"
  by (simp add: cacheConsistent_def emptyCache_def)

subsection \<open>The two loops and the change output\<close>

lemma resolves_script:
  "resolves prefixes address \<Longrightarrow>
     addressToScriptPublicKey address prefixes = Inr (scriptOf prefixes address)"
  by (simp add: resolves_def scriptOf_def split: sum.splits)

lemma not_resolves:
  "\<not> resolves prefixes address \<Longrightarrow> \<exists>e. addressToScriptPublicKey address prefixes = Inl e"
  by (simp add: resolves_def split: sum.splits)

lemma addInputs_iff:
  "addInputs prefixes ins tx tot = Inr r \<longleftrightarrow>
     (\<forall>i\<in>set ins. resolves prefixes (tsi_address i)) \<and>
     r = (tx\<lparr>st_inputs := st_inputs tx @ map inputRecord ins,
              st_utxos := st_utxos tx @ map (utxoRecord prefixes) ins\<rparr>,
          tot + sum_list (map tsi_amount ins))"
proof (induction ins arbitrary: tx tot)
  case Nil
  then show ?case by auto
next
  case (Cons i ins)
  show ?case
  proof (cases "resolves prefixes (tsi_address i)")
    case True
    show ?thesis
      using Cons resolves_script[OF True] True
      by (simp add: Let_def toSafeBigInt_def inputRecord_def utxoRecord_def algebra_simps)
  next
    case False
    then show ?thesis using not_resolves[OF False] by (auto simp add: Let_def)
  qed
qed

lemma addOutputs_iff:
  "addOutputs prefixes outs tx tot = Inr r \<longleftrightarrow>
     (\<forall>out\<in>set outs. 0 < tso_amount out \<and> resolves prefixes (tso_address out)) \<and>
     r = (tx\<lparr>st_outputs := st_outputs tx @
                map (\<lambda>out. outputRecord prefixes (tso_address out) (tso_amount out)) outs\<rparr>,
          tot + sum_list (map tso_amount outs))"
proof (induction outs arbitrary: tx tot)
  case Nil
  then show ?case by auto
next
  case (Cons out outs)
  show ?case
  proof (cases "0 < tso_amount out")
    case False
    then show ?thesis by (auto simp add: Let_def toSafeBigInt_def)
  next
    case pos: True
    show ?thesis
    proof (cases "resolves prefixes (tso_address out)")
      case True
      show ?thesis
        using Cons resolves_script[OF True] True pos
        by (simp add: Let_def toSafeBigInt_def outputRecord_def algebra_simps)
    next
      case False
      then show ?thesis using not_resolves[OF False] pos by (auto simp add: Let_def toSafeBigInt_def)
    qed
  qed
qed

lemma addOutputs_nonpositive:
  assumes "\<forall>out\<in>set before. 0 < tso_amount out \<and> resolves prefixes (tso_address out)"
    and "tso_amount bad \<le> 0"
  shows "addOutputs prefixes (before @ bad # after) tx tot = Inl NonPositiveOutputAmount"
  using assms
proof (induction before arbitrary: tx tot)
  case Nil
  then show ?case by (simp add: Let_def toSafeBigInt_def)
next
  case (Cons out before)
  then have r: "resolves prefixes (tso_address out)" and p: "0 < tso_amount out" by simp_all
  show ?case
    using Cons resolves_script[OF r] p by (simp add: Let_def toSafeBigInt_def)
qed

lemma buildUnsigned_iff:
  "buildUnsigned P params = Inr tx \<longleftrightarrow>
     isValidPrivateKey P (privateKey params) \<and> inputs params \<noteq> [] \<and> outputs params \<noteq> [] \<and>
     0 \<le> fee params \<and>
     (\<forall>i\<in>set (inputs params). resolves (addressPrefixes params) (tsi_address i)) \<and>
     (\<forall>out\<in>set (outputs params).
         0 < tso_amount out \<and> resolves (addressPrefixes params) (tso_address out)) \<and>
     0 \<le> changeOf params \<and>
     (thresholdOf params \<le> changeOf params \<longrightarrow>
         resolves (addressPrefixes params) (changeAddress params)) \<and>
     tx = unsignedTransaction params"
proof -
  let ?tx0 = "\<lparr>st_version = 0, st_inputs = [], st_outputs = [], st_lockTime = 0,
               st_subnetworkId = DEFAULT_SUBNETWORK_ID, st_utxos = []\<rparr>"
  let ?pre = "addressPrefixes params"
  show ?thesis
  proof (cases "addInputs ?pre (inputs params) ?tx0 0")
    case (Inl e)
    then have "\<not> (\<forall>i\<in>set (inputs params). resolves ?pre (tsi_address i))"
      using addInputs_iff[of ?pre "inputs params" ?tx0 0] by auto
    then show ?thesis using Inl by (auto simp add: buildUnsigned_def)
  next
    case (Inr r1)
    then have in_ok: "\<forall>i\<in>set (inputs params). resolves ?pre (tsi_address i)"
      and r1: "r1 = (?tx0\<lparr>st_inputs := map inputRecord (inputs params),
                           st_utxos := map (utxoRecord ?pre) (inputs params)\<rparr>, inputTotal params)"
      using addInputs_iff[of ?pre "inputs params" ?tx0 0 r1] by (simp_all add: inputTotal_def)
    show ?thesis
    proof (cases "addOutputs ?pre (outputs params) (fst r1) 0")
      case (Inl e)
      then have "\<not> (\<forall>out\<in>set (outputs params). 0 < tso_amount out \<and> resolves ?pre (tso_address out))"
        using addOutputs_iff[of ?pre "outputs params" "fst r1" 0] by auto
      then show ?thesis using Inl Inr r1 by (auto simp add: buildUnsigned_def)
    next
      case r2: (Inr r2)
      then have out_ok: "\<forall>out\<in>set (outputs params). 0 < tso_amount out \<and> resolves ?pre (tso_address out)"
        and r2v: "r2 = ((fst r1)\<lparr>st_outputs :=
                      map (\<lambda>out. outputRecord ?pre (tso_address out) (tso_amount out)) (outputs params)\<rparr>,
                     outputTotal params)"
        using addOutputs_iff[of ?pre "outputs params" "fst r1" 0 r2] r1
        by (simp_all add: outputTotal_def)
      show ?thesis
      proof (cases "resolves ?pre (changeAddress params)")
        case True
        show ?thesis
          using Inr r1 r2 r2v in_ok out_ok resolves_script[OF True] True
          by (auto simp add: buildUnsigned_def Let_def toSafeBigInt_def addChange_def
                changeOf_def thresholdOf_def unsignedTransaction_def outputRecord_def)
      next
        case False
        show ?thesis
          using Inr r1 r2 r2v in_ok out_ok not_resolves[OF False] False
          by (auto simp add: buildUnsigned_def Let_def toSafeBigInt_def addChange_def
                changeOf_def thresholdOf_def unsignedTransaction_def outputRecord_def)
      qed
    qed
  qed
qed

subsection \<open>The signing loop\<close>

lemma forEachE_via:
  assumes "\<And>w x. f w x = f w (g x)" "map g xs = map g ys"
  shows "forEachE f xs s = forEachE f ys s"
  using assms(2)
proof (induction xs arbitrary: ys s)
  case Nil
  then show ?case by simp
next
  case (Cons x xs)
  then obtain y ys' where ys: "ys = y # ys'" "g x = g y" "map g xs = map g ys'" by auto
  have "f s x = f s y" using assms(1)[of s x] assms(1)[of s y] ys(2) by simp
  then show ?case using Cons.IH[OF ys(3)] ys(1) by (cases "f s y") simp_all
qed

lemma hashOutpoint_clear: "hashOutpoint P w x = hashOutpoint P w (clearScript x)"
  by (simp add: hashOutpoint_def clearScript_def)

lemma writeInputFields_clear:
  "writeInputFields P w (map_option clearScript x) u = writeInputFields P w x u"
  by (cases x; cases u) (simp_all add: writeInputFields_def hashOutpoint_def clearScript_def)

lemma at_index_map: "at_index (map g xs) i = map_option g (at_index xs i)"
  by (simp add: at_index_def)

lemma same_fields:
  assumes "sameButScripts t t'"
  shows "st_version t' = st_version t" "st_outputs t' = st_outputs t"
    "st_lockTime t' = st_lockTime t" "st_utxos t' = st_utxos t"
    "map clearScript (st_inputs t') = map clearScript (st_inputs t)"
    "length (st_inputs t') = length (st_inputs t)"
proof -
  let ?a = "t'\<lparr>st_inputs := map clearScript (st_inputs t')\<rparr>"
  let ?b = "t\<lparr>st_inputs := map clearScript (st_inputs t)\<rparr>"
  have e: "?a = ?b" using assms by (simp add: sameButScripts_def)
  show "st_version t' = st_version t" using arg_cong[OF e, of st_version] by simp
  show "st_outputs t' = st_outputs t" using arg_cong[OF e, of st_outputs] by simp
  show "st_lockTime t' = st_lockTime t" using arg_cong[OF e, of st_lockTime] by simp
  show "st_utxos t' = st_utxos t" using arg_cong[OF e, of st_utxos] by simp
  show m: "map clearScript (st_inputs t') = map clearScript (st_inputs t)"
    using arg_cong[OF e, of st_inputs] by simp
  show "length (st_inputs t') = length (st_inputs t)"
    using arg_cong[OF m, of length] by simp
qed

lemma same_hashes:
  assumes "sameButScripts t t'"
  shows "allOutpointsHash P t' = allOutpointsHash P t"
    and "allSequencesHash P t' = allSequencesHash P t"
    and "allSigOpCountsHash P t' = allSigOpCountsHash P t"
    and "allOutputsHash P t' = allOutputsHash P t"
proof -
  note f = same_fields[OF assms]
  show "allOutpointsHash P t' = allOutpointsHash P t"
    unfolding allOutpointsHash_def
    using forEachE_via[where f = "hashOutpoint P" and g = clearScript, OF hashOutpoint_clear f(5)]
    by simp
  show "allSequencesHash P t' = allSequencesHash P t"
    unfolding allSequencesHash_def
    using forEachE_via[where f = "\<lambda>w input. writeUInt64LE w (si_sequence input)" and g = clearScript, OF _ f(5)]
    by (simp add: clearScript_def)
  show "allSigOpCountsHash P t' = allSigOpCountsHash P t"
    unfolding allSigOpCountsHash_def
    using forEachE_via[where f = "\<lambda>w input. writeUInt8 w 1" and g = clearScript, OF _ f(5)]
    by simp
  show "allOutputsHash P t' = allOutputsHash P t"
    unfolding allOutputsHash_def using f(2) by simp
qed

lemma same_sigHash:
  assumes "sameButScripts t t'"
  shows "spec_sigHash P t' hashType i = spec_sigHash P t hashType i"
proof -
  note f = same_fields[OF assms]
  note h = same_hashes[OF assms, of P]
  have "map_option clearScript (at_index (st_inputs t') i) = map_option clearScript (at_index (st_inputs t) i)"
    using f(5) by (simp flip: at_index_map)
  then have w: "writeInputFields P w (at_index (st_inputs t') i) u = writeInputFields P w (at_index (st_inputs t) i) u"
    for w u
    using writeInputFields_clear[of P w "at_index (st_inputs t') i" u]
      writeInputFields_clear[of P w "at_index (st_inputs t) i" u] by simp
  show ?thesis
    unfolding spec_sigHash_def spec_previousOutputsHash_def spec_sequencesHash_def
      spec_sigOpCountsHash_def spec_outputsHash_def h f(1-4) w ..
qed

lemma same_consistent:
  assumes "sameButScripts t t'"
  shows "cacheConsistent P t' cache = cacheConsistent P t cache"
  unfolding cacheConsistent_def same_hashes[OF assms] ..

lemma same_refl: "sameButScripts t t"
  by (simp add: sameButScripts_def)

lemma same_update:
  assumes "sameButScripts t t'" "i < length (st_inputs t')"
  shows "sameButScripts t
           (t'\<lparr>st_inputs := (st_inputs t')[i := (st_inputs t' ! i)\<lparr>si_signatureScript := s\<rparr>]\<rparr>)"
proof -
  have "map clearScript ((st_inputs t')[i := (st_inputs t' ! i)\<lparr>si_signatureScript := s\<rparr>])
        = map clearScript (st_inputs t')"
    using assms(2) by (simp add: map_update clearScript_def list_update_same_conv)
  then show ?thesis using assms(1) by (simp add: sameButScripts_def)
qed

lemma signInputs_inv:
  assumes "sameButScripts tx0 t" "cacheConsistent P tx0 cache"
    and "\<forall>i\<in>set idxs. i < length (st_inputs t)" "distinct idxs"
  shows "case signInputs P rand key idxs t cache of
           Inl e \<Rightarrow> \<exists>i\<in>set idxs. spec_sigHash P tx0 SIGHASH_ALL i = Inl e
         | Inr stx \<Rightarrow>
             sameButScripts tx0 stx \<and>
             (\<forall>i\<in>set idxs. \<exists>h. spec_sigHash P tx0 SIGHASH_ALL i = Inr h \<and>
                 si_signatureScript (st_inputs stx ! i) = signatureScriptFor P rand key h i) \<and>
             (\<forall>i. i \<notin> set idxs \<longrightarrow> i < length (st_inputs t) \<longrightarrow>
                 st_inputs stx ! i = st_inputs t ! i)"
  using assms
proof (induction idxs arbitrary: t cache)
  case Nil
  then show ?case by simp
next
  case (Cons idx rest)
  let ?r = "calculateSigHash P t SIGHASH_ALL idx cache"
  have ct: "cacheConsistent P t cache" using Cons.prems by (simp add: same_consistent)
  from calculateSigHash_spec[OF ct, of SIGHASH_ALL idx]
  have r1: "fst ?r = spec_sigHash P tx0 SIGHASH_ALL idx"
    and r2: "cacheConsistent P tx0 (snd ?r)"
    using Cons.prems(1) by (simp_all add: same_sigHash same_consistent)
  show ?case
  proof (cases "fst ?r")
    case (Inl e)
    then have "signInputs P rand key (idx # rest) t cache = Inl e"
      by (cases ?r) simp
    then show ?thesis using Inl r1 by simp
  next
    case (Inr h)
    let ?s = "bytesToHex ([0x41] @ schnorr_sign P h key (rand idx) @ [word_of_int SIGHASH_ALL])"
    let ?t' = "t\<lparr>st_inputs := (st_inputs t)[idx := (st_inputs t ! idx)\<lparr>si_signatureScript := ?s\<rparr>]\<rparr>"
    have step: "signInputs P rand key (idx # rest) t cache = signInputs P rand key rest ?t' (snd ?r)"
      using Inr by (cases ?r) (simp add: Let_def)
    have il: "idx < length (st_inputs t)" using Cons.prems by simp
    have s': "sameButScripts tx0 ?t'" using same_update[OF Cons.prems(1) il] .
    have b: "\<forall>i\<in>set rest. i < length (st_inputs ?t')" using Cons.prems by simp
    have d: "distinct rest" and ni: "idx \<notin> set rest" using Cons.prems by simp_all
    have sc: "?s = signatureScriptFor P rand key h idx"
      by (simp add: signatureScriptFor_def SIGHASH_ALL_def)
    note ih = Cons.IH[OF s' r2 b d]
    show ?thesis
    proof (cases "signInputs P rand key rest ?t' (snd ?r)")
      case (Inl e)
      then show ?thesis using ih step by auto
    next
      case stx: (Inr stx)
      have a1: "sameButScripts tx0 stx"
        and a2: "\<forall>i\<in>set rest. \<exists>h. spec_sigHash P tx0 SIGHASH_ALL i = Inr h \<and>
                 si_signatureScript (st_inputs stx ! i) = signatureScriptFor P rand key h i"
        and a3: "\<forall>i. i \<notin> set rest \<longrightarrow> i < length (st_inputs ?t') \<longrightarrow>
                 st_inputs stx ! i = st_inputs ?t' ! i"
        using ih stx by simp_all
      have "st_inputs stx ! idx = st_inputs ?t' ! idx" using a3 ni il by simp
      then have c1: "si_signatureScript (st_inputs stx ! idx) = signatureScriptFor P rand key h idx"
        using il sc by simp
      have c2: "spec_sigHash P tx0 SIGHASH_ALL idx = Inr h" using r1 Inr by simp
      have c3: "\<forall>i. i \<notin> set (idx # rest) \<longrightarrow> i < length (st_inputs t) \<longrightarrow>
                 st_inputs stx ! i = st_inputs t ! i"
        using a3 by auto
      show ?thesis using step stx a1 a2 c1 c2 c3 by simp
    qed
  qed
qed

subsection \<open>Requests that the writers accept\<close>

lemma sighash_all_flags:
  "\<not> isSigHashAnyoneCanPay SIGHASH_ALL" "\<not> isSigHashSingle SIGHASH_ALL"
  "\<not> isSigHashNone SIGHASH_ALL"
  by (simp_all add: isSigHashAnyoneCanPay_def isSigHashSingle_def isSigHashNone_def js_and_def
        SIGHASH_ALL_def SIGHASH_ANYONECANPAY_def SIGHASH_SINGLE_def SIGHASH_NONE_def
        SIGHASH_MASK_def)

lemma forEachE_ok:
  "(\<forall>x\<in>set xs. \<forall>w. \<exists>w'. f w x = Inr w') \<Longrightarrow> \<exists>w'. forEachE f xs w = Inr w'"
proof (induction xs arbitrary: w)
  case Nil
  then show ?case by simp
next
  case (Cons x xs)
  then obtain w1 where "f w x = Inr w1" by fastforce
  then show ?case using Cons by simp
qed

lemma scriptOf_length: "length (scriptOf prefixes address) \<le> 35"
  by (auto simp add: scriptOf_def addressToScriptPublicKey_def split: sum.splits if_splits)

lemma hashOutput_ok:
  assumes "0 \<le> so_amount out" "so_amount out \<le> 0xffffffffffffffff"
    "spk_version (so_scriptPublicKey out) = 0"
    "\<forall>hex. int (length (hexDecode P hex)) \<le> 0xffffffffffffffff"
  shows "\<exists>w'. hashOutput P w out = Inr w'"
  using assms
  by (simp add: hashOutput_def writeUInt64LE_def writeUInt16LE_def writeVarBytes_def hexToBytes_def)

lemma spec_sigHash_ok:
  assumes "buildUnsigned P params = Inr tx" "fitsRanges P params" "i < length (inputs params)"
  shows "\<exists>h. spec_sigHash P tx SIGHASH_ALL i = Inr h"
proof -
  have tx: "tx = unsignedTransaction params"
    and pos: "\<forall>out\<in>set (outputs params). 0 < tso_amount out"
    and ch: "0 \<le> changeOf params"
    using assms(1) by (simp_all add: buildUnsigned_iff)
  have hx: "\<forall>hex. int (length (hexDecode P hex)) \<le> 0xffffffffffffffff"
    and inr: "\<forall>i\<in>set (inputs params).
        0 \<le> tsi_vOut i \<and> tsi_vOut i \<le> 0xffffffff \<and>
        0 \<le> tsi_amount i \<and> tsi_amount i \<le> 0xffffffffffffffff"
    and outr: "\<forall>out\<in>set (outputs params). tso_amount out \<le> 0xffffffffffffffff"
    and chr: "changeOf params \<le> 0xffffffffffffffff"
    using assms(2) by (simp_all add: fitsRanges_def)
  have "\<exists>w. forEachE (hashOutpoint P) (st_inputs tx) [] = Inr w"
    unfolding tx using inr
    by (intro forEachE_ok)
       (simp add: unsignedTransaction_def hashOutpoint_def writeUInt32LE_def inputRecord_def)
  then obtain h1 where h1: "allOutpointsHash P tx = Inr h1"
    by (auto simp add: allOutpointsHash_def)
  have "\<exists>w. forEachE (\<lambda>w input. writeUInt64LE w (si_sequence input)) (st_inputs tx) [] = Inr w"
    unfolding tx
    by (intro forEachE_ok) (simp add: unsignedTransaction_def writeUInt64LE_def inputRecord_def)
  then obtain h2 where h2: "allSequencesHash P tx = Inr h2"
    by (auto simp add: allSequencesHash_def)
  have "\<exists>w. forEachE (\<lambda>w input. writeUInt8 w 1) (st_inputs tx) [] = Inr w"
    by (intro forEachE_ok) (simp add: writeUInt8_def)
  then obtain h3 where h3: "allSigOpCountsHash P tx = Inr h3"
    by (auto simp add: allSigOpCountsHash_def)
  have "\<forall>out\<in>set (st_outputs tx). \<forall>w. \<exists>w'. hashOutput P w out = Inr w'"
  proof (intro ballI allI)
    fix out w
    assume "out \<in> set (st_outputs tx)"
    then have "0 \<le> so_amount out \<and> so_amount out \<le> 0xffffffffffffffff \<and>
               spk_version (so_scriptPublicKey out) = 0"
      unfolding tx using pos outr ch chr
      by (auto simp add: unsignedTransaction_def outputRecord_def split: if_splits)
    then show "\<exists>w'. hashOutput P w out = Inr w'" using hashOutput_ok[OF _ _ _ hx] by simp
  qed
  then have "\<exists>w. forEachE (hashOutput P) (st_outputs tx) [] = Inr w"
    by (rule forEachE_ok)
  then obtain h5 where h5: "allOutputsHash P tx = Inr h5"
    by (auto simp add: allOutputsHash_def)
  let ?inp = "inputs params ! i"
  have mem: "?inp \<in> set (inputs params)" using assms(3) by simp
  have ai: "at_index (st_inputs tx) i = Some (inputRecord ?inp)"
    and au: "at_index (st_utxos tx) i = Some (utxoRecord (addressPrefixes params) ?inp)"
    unfolding tx using assms(3) by (simp_all add: at_index_def unsignedTransaction_def)
  have sl: "int (length (scriptOf (addressPrefixes params) (tsi_address ?inp))) \<le> 0xffffffffffffffff"
    using scriptOf_length[of "addressPrefixes params" "tsi_address ?inp"] by simp
  have wi: "\<exists>w'. writeInputFields P w (Some (inputRecord ?inp))
                    (Some (utxoRecord (addressPrefixes params) ?inp)) = Inr w'" for w
    using inr mem sl
    by (simp add: writeInputFields_def hashOutpoint_def writeUInt32LE_def writeUInt16LE_def
          writeVarBytes_def writeUInt64LE_def writeUInt8_def inputRecord_def utxoRecord_def)
  have wt: "\<exists>w'. writeTrailer w 0 SIGHASH_ALL = Inr w'" for w
    by (simp add: writeTrailer_def writeUInt64LE_def writeUInt8_def SIGHASH_ALL_def)
  have v: "st_version tx = 0" "st_lockTime tx = 0"
    unfolding tx by (simp_all add: unsignedTransaction_def)
  obtain w0 where w0: "writeUInt16LE [] (st_version tx) = Inr w0"
    using v by (simp add: writeUInt16LE_def)
  obtain w4 where w4: "writeInputFields P (writeHash (writeHash (writeHash w0 h1) h2) h3)
       (at_index (st_inputs tx) i) (at_index (st_utxos tx) i) = Inr w4"
    using wi ai au by metis
  obtain w6 where w6: "writeTrailer (writeHash w4 h5) (st_lockTime tx) SIGHASH_ALL = Inr w6"
    using wt v by metis
  show ?thesis
    unfolding spec_sigHash_def spec_previousOutputsHash_def spec_sequencesHash_def
      spec_sigOpCountsHash_def spec_outputsHash_def
    using sighash_all_flags h1 h2 h3 h5 w0 w4 w6 by simp
qed

subsection \<open>The payload\<close>

lemma digit_values: "\<forall>n\<in>set [0..<10]. digitValue (hexDigit n) = int n \<and> hexDigit n \<noteq> CHR ''-''"
  by code_simp

lemma digit_value: "n < 10 \<Longrightarrow> digitValue (hexDigit n) = int n"
  and digit_not_minus: "n < 10 \<Longrightarrow> hexDigit n \<noteq> CHR ''-''"
  using digit_values by simp_all

lemma decimal_value: "foldl (\<lambda>a d. 10 * a + digitValue d) 0 (decimal n) = int n"
proof (induction n rule: decimal.induct)
  case (1 n)
  show ?case
  proof (cases "n < 10")
    case True
    then show ?thesis by (subst decimal.simps) (simp add: digit_value)
  next
    case False
    then have "foldl (\<lambda>a d. 10 * a + digitValue d) 0 (decimal (n div 10)) = int (n div 10)"
      using 1 by simp
    moreover have "n mod 10 < 10" by simp
    ultimately show ?thesis
      using False by (subst decimal.simps) (simp add: digit_value zdiv_int zmod_int)
  qed
qed

lemma decimal_head: "\<exists>c cs. decimal n = c # cs \<and> c \<noteq> CHR ''-''"
proof (induction n rule: decimal.induct)
  case (1 n)
  show ?case
  proof (cases "n < 10")
    case True
    then show ?thesis by (subst decimal.simps) (simp add: digit_not_minus)
  next
    case False
    then obtain c cs where "decimal (n div 10) = c # cs" "c \<noteq> CHR ''-''" using 1 by blast
    then show ?thesis using False by (subst decimal.simps) simp
  qed
qed

lemma amountOf_toString: "amountOf (bigintToString i) = i"
proof (cases "i < 0")
  case True
  then show ?thesis by (simp add: amountOf_def bigintToString_def decimal_value)
next
  case False
  obtain c cs where c: "decimal (nat i) = c # cs" "c \<noteq> CHR ''-''" using decimal_head by blast
  have "foldl (\<lambda>a d. 10 * a + digitValue d) 0 (c # cs) = int (nat i)"
    using decimal_value[of "nat i"] c by simp
  then show ?thesis using False c by (simp add: amountOf_def bigintToString_def)
qed

lemma payloadOutput_record:
  "payloadOutput (outputRecord prefixes address amount) = payloadOutputFor prefixes address amount"
  by (simp add: payloadOutput_def outputRecord_def payloadOutputFor_def scriptOf_def bytesToHex_def
        split: sum.splits)

text \<open>What a successful call returns, in terms of the request.\<close>

lemma build_result:
  assumes "buildSignedTransaction P rand params = Inr pl"
  shows "buildUnsigned P params = Inr (unsignedTransaction params)"
    and "pt_outputs (transaction pl) = map payloadOutput (st_outputs (unsignedTransaction params))"
    and "length (pt_inputs (transaction pl)) = length (inputs params)"
    and "\<forall>i<length (inputs params). \<exists>h.
           spec_sigHash P (unsignedTransaction params) SIGHASH_ALL i = Inr h \<and>
           si_signatureScript (pt_inputs (transaction pl) ! i)
             = signatureScriptFor P rand (privateKey params) h i"
proof -
  let ?tx = "unsignedTransaction params"
  obtain tx where b: "buildUnsigned P params = Inr tx"
    using assms by (auto simp add: buildSignedTransaction_def split: sum.splits)
  then have tx: "tx = ?tx" by (simp add: buildUnsigned_iff)
  show u: "buildUnsigned P params = Inr ?tx" using b tx by simp
  let ?n = "length (st_inputs ?tx)"
  obtain stx where s: "signInputs P rand (privateKey params) [0 ..< ?n] ?tx emptyCache = Inr stx"
    and pl: "pl = toPayload stx"
    using assms u by (auto simp add: buildSignedTransaction_def split: sum.splits)
  have n: "?n = length (inputs params)" by (simp add: unsignedTransaction_def)
  from signInputs_inv[OF same_refl emptyCache_consistent, of "[0 ..< ?n]" ?tx P rand "privateKey params"] s
  have a1: "sameButScripts ?tx stx"
    and a2: "\<forall>i\<in>set [0 ..< ?n]. \<exists>h. spec_sigHash P ?tx SIGHASH_ALL i = Inr h \<and>
                 si_signatureScript (st_inputs stx ! i) = signatureScriptFor P rand (privateKey params) h i"
    by simp_all
  note f = same_fields[OF a1]
  show "pt_outputs (transaction pl) = map payloadOutput (st_outputs ?tx)"
    using pl f(2) by (simp add: toPayload_def payloadOutput_def)
  show "length (pt_inputs (transaction pl)) = length (inputs params)"
    using pl f(6) n by (simp add: toPayload_def)
  show "\<forall>i<length (inputs params). \<exists>h.
           spec_sigHash P ?tx SIGHASH_ALL i = Inr h \<and>
           si_signatureScript (pt_inputs (transaction pl) ! i)
             = signatureScriptFor P rand (privateKey params) h i"
    using a2 pl n by (simp add: toPayload_def)
qed

lemma build_error:
  assumes "buildSignedTransaction P rand params = Inl e"
  shows "buildUnsigned P params = Inl e \<or>
         (buildUnsigned P params = Inr (unsignedTransaction params) \<and>
          (\<exists>i<length (inputs params). spec_sigHash P (unsignedTransaction params) SIGHASH_ALL i = Inl e))"
proof (cases "buildUnsigned P params")
  case (Inl e')
  then show ?thesis using assms by (simp add: buildSignedTransaction_def)
next
  case (Inr tx)
  let ?tx = "unsignedTransaction params"
  have tx: "tx = ?tx" using Inr by (simp add: buildUnsigned_iff)
  let ?n = "length (st_inputs ?tx)"
  have n: "?n = length (inputs params)" by (simp add: unsignedTransaction_def)
  have s: "signInputs P rand (privateKey params) [0 ..< ?n] ?tx emptyCache = Inl e"
    using assms Inr tx by (auto simp add: buildSignedTransaction_def split: sum.splits)
  from signInputs_inv[OF same_refl emptyCache_consistent, of "[0 ..< ?n]" ?tx P rand "privateKey params"] s
  have "\<exists>i\<in>set [0 ..< ?n]. spec_sigHash P ?tx SIGHASH_ALL i = Inl e" by simp
  then show ?thesis using Inr tx n by auto
qed

lemma build_succeeds:
  assumes "buildUnsigned P params = Inr tx" "fitsRanges P params"
  shows "\<exists>pl. buildSignedTransaction P rand params = Inr pl"
proof (cases "buildSignedTransaction P rand params")
  case (Inr pl)
  then show ?thesis by simp
next
  case (Inl e)
  have tx: "tx = unsignedTransaction params" using assms(1) by (simp add: buildUnsigned_iff)
  from build_error[OF Inl] assms(1) tx
  obtain i where "i < length (inputs params)" "spec_sigHash P tx SIGHASH_ALL i = Inl e" by auto
  then show ?thesis using spec_sigHash_ok[OF assms, of i] by simp
qed

subsection \<open>The concrete request\<close>

lemma demo_script:
  "addressToScriptPublicKey demoAddress [''kaspa''] = Inr ([0x20] @ replicate 32 1 @ [0xac])"
  by (simp add: addressToScriptPublicKey_def demo_decodes)

lemma demo_resolves: "resolves [''kaspa''] demoAddress"
  by (simp add: resolves_def demo_script)

lemma demo_amounts:
  "map tsi_amount (inputs (demoRequest ins out f)) = ins"
  "map tsi_vOut (inputs (demoRequest ins out f)) = map int [0 ..< length ins]"
  "map tsi_address (inputs (demoRequest ins out f)) = replicate (length ins) demoAddress"
proof -
  have a: "tsi_amount \<circ> (\<lambda>(k, amount). \<lparr>tsi_txId = replicate 64 (CHR ''0''), tsi_vOut = int k,
              tsi_address = demoAddress, tsi_amount = amount\<rparr>) = snd"
    and b: "tsi_vOut \<circ> (\<lambda>(k, amount). \<lparr>tsi_txId = replicate 64 (CHR ''0''), tsi_vOut = int k,
              tsi_address = demoAddress, tsi_amount = amount\<rparr>) = int \<circ> fst"
    and c: "tsi_address \<circ> (\<lambda>(k, amount). \<lparr>tsi_txId = replicate 64 (CHR ''0''), tsi_vOut = int k,
              tsi_address = demoAddress, tsi_amount = amount\<rparr>) = (\<lambda>x. demoAddress)"
    by auto
  show "map tsi_amount (inputs (demoRequest ins out f)) = ins"
    by (simp add: demoRequest_def a)
  have "map (int \<circ> fst) (enumerate 0 ins) = map int [0 ..< length ins]"
    by (metis map_map map_fst_enumerate add_0)
  then show "map tsi_vOut (inputs (demoRequest ins out f)) = map int [0 ..< length ins]"
    by (simp add: demoRequest_def b)
  show "map tsi_address (inputs (demoRequest ins out f)) = replicate (length ins) demoAddress"
    by (simp add: demoRequest_def c map_replicate_const)
qed

lemma demo_totals:
  "inputTotal (demoRequest ins out f) = sum_list ins"
  "outputTotal (demoRequest ins out f) = out"
  "changeOf (demoRequest ins out f) = sum_list ins - out - f"
  "thresholdOf (demoRequest ins out f) = 546"
  "fee (demoRequest ins out f) = f"
  unfolding changeOf_def inputTotal_def demo_amounts
  by (simp_all add: outputTotal_def thresholdOf_def demoRequest_def)

lemma demo_inputs_resolve:
  "\<forall>i\<in>set (inputs (demoRequest ins out f)). resolves [''kaspa''] (tsi_address i)"
proof
  fix i assume "i \<in> set (inputs (demoRequest ins out f))"
  then have "tsi_address i \<in> set (map tsi_address (inputs (demoRequest ins out f)))" by simp
  then show "resolves [''kaspa''] (tsi_address i)"
    unfolding demo_amounts using demo_resolves by simp
qed

lemma demo_unsigned:
  assumes "isValidPrivateKey P demoKey" "ins \<noteq> []" "0 \<le> f" "0 < out" "0 \<le> sum_list ins - out - f"
  shows "buildUnsigned P (demoRequest ins out f) = Inr (unsignedTransaction (demoRequest ins out f))"
proof -
  have "length (inputs (demoRequest ins out f)) = length ins"
    by (simp add: demoRequest_def)
  then have ne: "inputs (demoRequest ins out f) \<noteq> []" using assms(2) by auto
  have rest: "outputs (demoRequest ins out f) = [\<lparr>tso_address = demoAddress, tso_amount = out\<rparr>]"
    "privateKey (demoRequest ins out f) = demoKey"
    "addressPrefixes (demoRequest ins out f) = [''kaspa'']"
    "changeAddress (demoRequest ins out f) = demoAddress"
    by (simp_all add: demoRequest_def)
  show ?thesis
    unfolding buildUnsigned_iff demo_totals rest
    using assms ne demo_inputs_resolve[of ins out f] demo_resolves
    by (simp add: rest)
qed

lemma demo_fits:
  assumes "\<forall>hex. int (length (hexDecode P hex)) \<le> 0xffffffffffffffff"
    and "\<forall>a\<in>set ins. 0 \<le> a \<and> a \<le> 0xffffffffffffffff" "length ins \<le> 1000"
    and "out \<le> 0xffffffffffffffff" "sum_list ins - out - f \<le> 0xffffffffffffffff"
  shows "fitsRanges P (demoRequest ins out f)"
proof -
  have v: "\<forall>i\<in>set (inputs (demoRequest ins out f)). 0 \<le> tsi_vOut i \<and> tsi_vOut i \<le> 0xffffffff"
  proof
    fix i assume "i \<in> set (inputs (demoRequest ins out f))"
    then have "tsi_vOut i \<in> set (map tsi_vOut (inputs (demoRequest ins out f)))" by simp
    then show "0 \<le> tsi_vOut i \<and> tsi_vOut i \<le> 0xffffffff"
      unfolding demo_amounts using assms(3) by auto
  qed
  have a: "\<forall>i\<in>set (inputs (demoRequest ins out f)). 0 \<le> tsi_amount i \<and> tsi_amount i \<le> 0xffffffffffffffff"
  proof
    fix i assume "i \<in> set (inputs (demoRequest ins out f))"
    then have "tsi_amount i \<in> set (map tsi_amount (inputs (demoRequest ins out f)))" by simp
    then show "0 \<le> tsi_amount i \<and> tsi_amount i \<le> 0xffffffffffffffff"
      unfolding demo_amounts using assms(2) by auto
  qed
  have o: "\<forall>out'\<in>set (outputs (demoRequest ins out f)). tso_amount out' \<le> 0xffffffffffffffff"
    using assms(4) by (simp add: demoRequest_def)
  show ?thesis
    unfolding fitsRanges_def demo_totals using v a o assms(1,5) by simp
qed

lemma demoPrims_facts:
  "isValidPrivateKey demoPrims demoKey"
  "\<forall>hex. int (length (hexDecode demoPrims hex)) \<le> 0xffffffffffffffff"
  "\<forall>m k a. length (schnorr_sign demoPrims m k a) = 64"
  by (auto simp add: demoPrims_def demoKey_def)

lemma payload_amounts:
  assumes "buildSignedTransaction P rand params = Inr pl"
  shows "pt_outputs (transaction pl) =
           map (\<lambda>out. payloadOutputFor (addressPrefixes params) (tso_address out) (tso_amount out))
             (outputs params)
           @ (if thresholdOf params \<le> changeOf params
              then [payloadOutputFor (addressPrefixes params) (changeAddress params) (changeOf params)]
              else [])"
  using build_result(2)[OF assms]
  by (simp add: unsignedTransaction_def payloadOutput_record comp_def)

lemma payload_total:
  assumes "buildSignedTransaction P rand params = Inr pl"
  shows "payloadOutputTotal pl =
           outputTotal params + (if thresholdOf params \<le> changeOf params then changeOf params else 0)"
proof -
  have a: "amountOf (po_amount (payloadOutputFor prefixes address amount)) = amount"
    for prefixes address amount
    by (simp add: payloadOutputFor_def amountOf_toString)
  show ?thesis
    unfolding payloadOutputTotal_def payload_amounts[OF assms]
    by (simp add: a comp_def outputTotal_def)
qed

lemma demo_builds:
  assumes "ins \<noteq> []" "0 \<le> f" "0 < out" "0 \<le> sum_list ins - out - f"
    and "\<forall>a\<in>set ins. 0 \<le> a \<and> a \<le> 0xffffffffffffffff" "length ins \<le> 1000"
    and "out \<le> 0xffffffffffffffff" "sum_list ins - out - f \<le> 0xffffffffffffffff"
  shows "\<exists>pl. buildSignedTransaction demoPrims demoRand (demoRequest ins out f) = Inr pl"
  using build_succeeds[OF demo_unsigned[OF demoPrims_facts(1) assms(1-4)]
          demo_fits[OF demoPrims_facts(2) assms(5-8)]] .

section \<open>Claims about the address codec\<close>

text \<open>
  C1 (round trip). For every payload, every version byte and every valid prefix (ASCII,
  lower case, without the separator), \<open>encodeKaspaAddress\<close> returns an address, and
  \<open>decodeKaspaAddress\<close> of that address, with the prefix as the only allowed one,
  succeeds and returns exactly the prefix, the version and the payload.
\<close>

theorem encode_decode_roundtrip:
  assumes "validPrefix pre"
  shows "\<exists>a. encodeKaspaAddress pl pre ver = Inr a \<and>
             decodeKaspaAddress a [pre] = Inr \<lparr>prefix = pre, version = ver, payload = pl\<rparr>"
  using assms by (rule roundtrip_aux)

theorem encode_decode_roundtrip_witness:
  "validPrefix ''kaspatest'' \<and>
   (\<exists>a. encodeKaspaAddress [1, 2, 3] ''kaspatest'' 8 = Inr a \<and>
        decodeKaspaAddress a [''kaspatest'']
          = Inr \<lparr>prefix = ''kaspatest'', version = 8, payload = [1, 2, 3]\<rparr>)"
proof -
  have v: "validPrefix ''kaspatest''" by (simp add: validPrefix_def)
  show ?thesis using v encode_decode_roundtrip[OF v, of "[1, 2, 3]" 8] by simp
qed

section \<open>Claims about the signing engine\<close>

text \<open>
  C2 (fee conservation), amended: in every successful call the change is not negative, and
  the input amounts sum to the output amounts of the payload plus the fee plus the
  leftover, which is 0 when the change reached the dust threshold (the change output
  carries it) and is the change itself when it did not. The equality of the claim holds
  when the change is 0 or reaches the threshold.
\<close>

theorem fee_conservation_with_dust:
  assumes "buildSignedTransaction P rand params = Inr pl"
  shows "0 \<le> changeOf params \<and>
         inputTotal params = payloadOutputTotal pl + fee params
           + (if thresholdOf params \<le> changeOf params then 0 else changeOf params)"
proof -
  have "buildUnsigned P params = Inr (unsignedTransaction params)"
    using build_result(1)[OF assms] .
  then have "0 \<le> changeOf params" by (simp add: buildUnsigned_iff)
  then show ?thesis using payload_total[OF assms] by (simp add: changeOf_def)
qed

theorem fee_conservation_with_dust_witness:
  "case buildSignedTransaction demoPrims demoRand (demoRequest [100000000] 50000000 1000) of
     Inl e \<Rightarrow> False
   | Inr pl \<Rightarrow> payloadOutputTotal pl = 99999000 \<and> 100000000 = payloadOutputTotal pl + 1000"
proof -
  obtain pl where pl: "buildSignedTransaction demoPrims demoRand (demoRequest [100000000] 50000000 1000) = Inr pl"
    using demo_builds[of "[100000000]" 1000 50000000] by auto
  show ?thesis
    using fee_conservation_with_dust[OF pl] pl by (simp add: demo_totals)
qed

theorem fee_conservation_counterexample:
  "case buildSignedTransaction demoPrims demoRand (demoRequest [1000] 500 100) of
     Inl e \<Rightarrow> False
   | Inr pl \<Rightarrow> inputTotal (demoRequest [1000] 500 100)
                \<noteq> payloadOutputTotal pl + fee (demoRequest [1000] 500 100)"
proof -
  obtain pl where pl: "buildSignedTransaction demoPrims demoRand (demoRequest [1000] 500 100) = Inr pl"
    using demo_builds[of "[1000]" 100 500] by auto
  show ?thesis
    using payload_total[OF pl] pl by (simp add: demo_totals)
qed

text \<open>
  C3 (change output). In every successful call, with change = total input - total
  requested output - fee: when the change reaches the dust threshold, the outputs of the
  payload are the requested ones followed by exactly one more, which carries the change as
  its amount and the script of the change address, version 0, and that address resolves;
  when the change is at least 0 and below the threshold, the outputs of the payload are
  the requested ones and nothing else.
\<close>

theorem change_output_rule:
  assumes "buildSignedTransaction P rand params = Inr pl"
  shows "(thresholdOf params \<le> changeOf params \<longrightarrow>
            pt_outputs (transaction pl) =
              map (\<lambda>out. payloadOutputFor (addressPrefixes params) (tso_address out) (tso_amount out))
                (outputs params)
              @ [payloadOutputFor (addressPrefixes params) (changeAddress params) (changeOf params)]
            \<and> length (pt_outputs (transaction pl)) = length (outputs params) + 1
            \<and> spk_version (po_scriptPublicKey (last (pt_outputs (transaction pl)))) = 0
            \<and> resolves (addressPrefixes params) (changeAddress params)) \<and>
         (0 \<le> changeOf params \<and> changeOf params < thresholdOf params \<longrightarrow>
            pt_outputs (transaction pl) =
              map (\<lambda>out. payloadOutputFor (addressPrefixes params) (tso_address out) (tso_amount out))
                (outputs params)
            \<and> length (pt_outputs (transaction pl)) = length (outputs params))"
proof -
  have "buildUnsigned P params = Inr (unsignedTransaction params)"
    using build_result(1)[OF assms] .
  then have "thresholdOf params \<le> changeOf params \<longrightarrow>
               resolves (addressPrefixes params) (changeAddress params)"
    by (simp add: buildUnsigned_iff)
  then show ?thesis
    using payload_amounts[OF assms] by (simp add: payloadOutputFor_def)
qed

theorem change_output_rule_witness:
  "(case buildSignedTransaction demoPrims demoRand (demoRequest [100000000] 50000000 1000) of
      Inl e \<Rightarrow> False
    | Inr pl \<Rightarrow> pt_outputs (transaction pl) =
                  [payloadOutputFor [''kaspa''] demoAddress 50000000,
                   payloadOutputFor [''kaspa''] demoAddress 49999000]) \<and>
   (case buildSignedTransaction demoPrims demoRand (demoRequest [100000000] 99999500 500) of
      Inl e \<Rightarrow> False
    | Inr pl \<Rightarrow> pt_outputs (transaction pl) = [payloadOutputFor [''kaspa''] demoAddress 99999500])"
proof -
  obtain p1 where p1: "buildSignedTransaction demoPrims demoRand (demoRequest [100000000] 50000000 1000) = Inr p1"
    using demo_builds[of "[100000000]" 1000 50000000] by auto
  obtain p2 where p2: "buildSignedTransaction demoPrims demoRand (demoRequest [100000000] 99999500 500) = Inr p2"
    using demo_builds[of "[100000000]" 500 99999500] by auto
  have r: "outputs (demoRequest ins out f) = [\<lparr>tso_address = demoAddress, tso_amount = out\<rparr>]"
    "addressPrefixes (demoRequest ins out f) = [''kaspa'']"
    "changeAddress (demoRequest ins out f) = demoAddress" for ins out f
    by (simp_all add: demoRequest_def)
  show ?thesis
    using change_output_rule[OF p1] change_output_rule[OF p2] p1 p2
    by (simp add: demo_totals r)
qed

text \<open>
  C4 (insufficient balance). When the private key is valid, there are inputs and outputs,
  the fee is not negative, every output amount is positive and every input and output
  address resolves, a total input below the total output plus the fee makes the call
  fail with InsufficientBalance; a failed call has no payload.
\<close>

theorem insufficient_balance:
  assumes "isValidPrivateKey P (privateKey params)"
    and "inputs params \<noteq> []" "outputs params \<noteq> []" "0 \<le> fee params"
    and "\<forall>i\<in>set (inputs params). resolves (addressPrefixes params) (tsi_address i)"
    and "\<forall>out\<in>set (outputs params).
           0 < tso_amount out \<and> resolves (addressPrefixes params) (tso_address out)"
    and "inputTotal params < outputTotal params + fee params"
  shows "buildSignedTransaction P rand params = Inl InsufficientBalance"
proof -
  let ?tx0 = "\<lparr>st_version = 0, st_inputs = [], st_outputs = [], st_lockTime = 0,
               st_subnetworkId = DEFAULT_SUBNETWORK_ID, st_utxos = []\<rparr>"
  let ?pre = "addressPrefixes params"
  obtain tx1 where a: "addInputs ?pre (inputs params) ?tx0 0 = Inr (tx1, inputTotal params)"
    using addInputs_iff[of ?pre "inputs params" ?tx0 0] assms(5) by (simp add: inputTotal_def)
  obtain tx2 where b: "addOutputs ?pre (outputs params) tx1 0 = Inr (tx2, outputTotal params)"
    using addOutputs_iff[of ?pre "outputs params" tx1 0] assms(6) by (simp add: outputTotal_def)
  have "buildUnsigned P params = Inl InsufficientBalance"
    using assms(1-4,7) a b by (simp add: buildUnsigned_def toSafeBigInt_def)
  then show ?thesis by (simp add: buildSignedTransaction_def)
qed

theorem insufficient_balance_witness:
  "buildSignedTransaction demoPrims demoRand (demoRequest [1000] 2000 100) = Inl InsufficientBalance"
proof -
  have r: "outputs (demoRequest [1000] 2000 100) = [\<lparr>tso_address = demoAddress, tso_amount = 2000\<rparr>]"
    "addressPrefixes (demoRequest [1000] 2000 100) = [''kaspa'']"
    "privateKey (demoRequest [1000] 2000 100) = demoKey"
    by (simp_all add: demoRequest_def)
  have i: "inputs (demoRequest [1000] 2000 100) \<noteq> []" by (simp add: demoRequest_def)
  show ?thesis
    by (rule insufficient_balance)
       (use demo_inputs_resolve[of "[1000]" 2000 100] demo_resolves demoPrims_facts(1) i
         in \<open>simp_all add: r demo_totals\<close>)
qed

text \<open>
  C6 (signature scripts). In every payload that is returned, there is one input per
  requested input, and the signature script of each is the hex encoding of 66 bytes: the
  byte 0x41, the Schnorr signature (64 bytes, as the library returns them) over the
  signature hash of that input under SIGHASH_ALL, and the byte 0x01.
\<close>

theorem signature_script_format:
  assumes "buildSignedTransaction P rand params = Inr pl"
    and "\<forall>message key aux. length (schnorr_sign P message key aux) = 64"
  shows "\<exists>tx. buildUnsigned P params = Inr tx \<and>
           length (pt_inputs (transaction pl)) = length (inputs params) \<and>
           (\<forall>i<length (inputs params). \<exists>sigHash signature.
              fst (calculateSigHash P tx SIGHASH_ALL i emptyCache) = Inr sigHash \<and>
              signature = schnorr_sign P sigHash (privateKey params) (rand i) \<and>
              length signature = 64 \<and>
              si_signatureScript (pt_inputs (transaction pl) ! i)
                = bytesToHex ([0x41] @ signature @ [0x01]) \<and>
              length ([0x41] @ signature @ [0x01]) = 66)"
proof -
  let ?tx = "unsignedTransaction params"
  note r = build_result[OF assms(1)]
  have c: "fst (calculateSigHash P ?tx SIGHASH_ALL i emptyCache) = spec_sigHash P ?tx SIGHASH_ALL i"
    for i
    using calculateSigHash_spec[OF emptyCache_consistent] by simp
  show ?thesis
    using r(1) r(3) r(4) assms(2)
    by (intro exI[of _ ?tx]) (simp add: c signatureScriptFor_def)
qed

theorem signature_script_format_witness:
  "case buildSignedTransaction demoPrims demoRand (demoRequest [100000000] 50000000 1000) of
     Inl e \<Rightarrow> False
   | Inr pl \<Rightarrow>
       length (pt_inputs (transaction pl)) = 1 \<and>
       (\<exists>signature. length signature = 64 \<and>
          si_signatureScript (pt_inputs (transaction pl) ! 0)
            = bytesToHex ([0x41] @ signature @ [0x01]))"
proof -
  obtain pl where pl: "buildSignedTransaction demoPrims demoRand (demoRequest [100000000] 50000000 1000) = Inr pl"
    using demo_builds[of "[100000000]" 1000 50000000] by auto
  have n: "length (inputs (demoRequest [100000000] 50000000 1000)) = 1"
    by (simp add: demoRequest_def)
  from signature_script_format[OF pl demoPrims_facts(3)] n
  show ?thesis using pl by auto
qed

end
